theory Spec2Isabelle
  imports Main "HOL-Library.FSet" "HOL-Library.Product_Lexorder"
begin

section \<open>Python strings and truthiness\<close>

text \<open>
  The spider works on Python \<open>str\<close> values and on \<open>Optional[str]\<close> results of selector
  queries (\<open>.get()\<close> returns \<open>None\<close> when nothing matches). A string is a list of characters;
  \<open>None\<close> is \<open>None\<close>. \<open>str.strip()\<close> removes leading and trailing white space, which for
  characters below 256 are the code points 9-13, 28-32, 133 and 160.
\<close>

definition py_isspace :: "char \<Rightarrow> bool" where
  "py_isspace c = (of_char c \<in> {9, 10, 11, 12, 13, 28, 29, 30, 31, 32, 133, 160 :: nat})"

definition strip :: "string \<Rightarrow> string" where
  "strip s = rev (dropWhile py_isspace (rev (dropWhile py_isspace s)))"

definition startswith :: "string \<Rightarrow> string \<Rightarrow> bool" where
  "startswith s p = (take (length p) s = p)"

definition endswith :: "string \<Rightarrow> string \<Rightarrow> bool" where
  "endswith s t = (length t \<le> length s \<and> drop (length s - length t) s = t)"

text \<open>\<open>s.replace("Z", "+00:00")\<close>: every occurrence of the character is replaced.\<close>

definition replace_Z :: "string \<Rightarrow> string" where
  "replace_Z s = concat (map (\<lambda>c. if c = CHR ''Z'' then ''+00:00'' else [c]) s)"

text \<open>\<open>", ".join(names)\<close>\<close>

fun join_comma :: "string list \<Rightarrow> string" where
  "join_comma [] = []"
| "join_comma [x] = x"
| "join_comma (x # y # ys) = x @ '', '' @ join_comma (y # ys)"

text \<open>Truthiness of an \<open>Optional[str]\<close>, and Python's \<open>a or b\<close> on such values.\<close>

fun truthy :: "string option \<Rightarrow> bool" where
  "truthy None = False"
| "truthy (Some s) = (s \<noteq> [])"

definition py_or :: "string option \<Rightarrow> string option \<Rightarrow> string option" where
  "py_or a b = (if truthy a then a else b)"

text \<open>\<open>x.strip() if x else None\<close>\<close>

definition strip_opt :: "string option \<Rightarrow> string option" where
  "strip_opt x = (if truthy x then map_option strip x else None)"

section \<open>The datetime library\<close>

text \<open>
  The spider calls \<open>datetime.fromisoformat\<close>, \<open>datetime.astimezone\<close> and
  \<open>datetime.isoformat\<close> of the Python standard library. They are modelled here after the
  library's reference implementation (\<open>Lib/datetime.py\<close>, the grammar
  \<open>YYYY-MM-DD[*HH[:MM[:SS[.fff[fff]]]][+HH:MM[:SS[.ffffff]]]]\<close>, decimal digits only).

  \<open>TZ = ZoneInfo("Asia/Taipei")\<close> is taken at its fixed offset UTC+08:00, the zone's offset
  for every instant since 1980. Every datetime the spider compares carries this one
  \<open>tzinfo\<close> object, and Python then compares the wall-clock fields; so such a datetime is
  represented by the number of microseconds on the Taipei wall clock since
  0001-01-01T00:00:00 (\<open>datetime.min\<close> is 0).
\<close>

type_synonym instant = int

definition tz_offset :: int where
  "tz_offset = 28800000000"

definition hour_us :: int where
  "hour_us = 3600000000"

definition day_us :: int where
  "day_us = 86400000000"

text \<open>\<open>datetime.max\<close> is 9999-12-31T23:59:59.999999, the last microsecond of day 3652059.\<close>

definition max_ordinal :: int where
  "max_ordinal = 3652059"

definition in_range :: "int \<Rightarrow> bool" where
  "in_range w = (0 \<le> w \<and> w < max_ordinal * day_us)"

subsection \<open>The proleptic Gregorian calendar\<close>

definition is_leap :: "int \<Rightarrow> bool" where
  "is_leap year = (year mod 4 = 0 \<and> (year mod 100 \<noteq> 0 \<or> year mod 400 = 0))"

definition days_before_year :: "int \<Rightarrow> int" where
  "days_before_year year =
     (let y = year - 1 in y * 365 + y div 4 - y div 100 + y div 400)"

definition days_in_month :: "int \<Rightarrow> int \<Rightarrow> int" where
  "days_in_month year month =
     (if month = 2 then (if is_leap year then 29 else 28)
      else if month = 4 \<or> month = 6 \<or> month = 9 \<or> month = 11 then 30 else 31)"

text \<open>\<open>_DAYS_BEFORE_MONTH\<close>, for a common year.\<close>

definition days_before_month_tab :: "int \<Rightarrow> int" where
  "days_before_month_tab month =
     (if month = 1 then 0 else if month = 2 then 31 else if month = 3 then 59
      else if month = 4 then 90 else if month = 5 then 120 else if month = 6 then 151
      else if month = 7 then 181 else if month = 8 then 212 else if month = 9 then 243
      else if month = 10 then 273 else if month = 11 then 304 else 334)"

definition days_before_month :: "int \<Rightarrow> int \<Rightarrow> int" where
  "days_before_month year month =
     days_before_month_tab month + (if month > 2 \<and> is_leap year then 1 else 0)"

definition ymd2ord :: "int \<Rightarrow> int \<Rightarrow> int \<Rightarrow> int" where
  "ymd2ord year month day = days_before_year year + days_before_month year month + day"

text \<open>
  \<open>_ord2ymd\<close>: 146097 days in 400 years, 36524 in 100, 1461 in 4. Its last part finds the
  month and the day from the number \<open>n\<close> of days since 1 January: an estimate of the month
  that is right or one too large.
\<close>

definition month_and_day :: "int \<Rightarrow> bool \<Rightarrow> int \<Rightarrow> int \<times> int \<times> int" where
  "month_and_day year leapyear n =
     (let month = (n + 50) div 32;
          preceding = days_before_month_tab month + (if month > 2 \<and> leapyear then 1 else 0)
      in if preceding > n
         then let month' = month - 1;
                  preceding' = preceding -
                    ((if month' = 2 then 28
                      else if month' = 4 \<or> month' = 6 \<or> month' = 9 \<or> month' = 11 then 30
                      else 31)
                     + (if month' = 2 \<and> leapyear then 1 else 0))
              in (year, month', n - preceding' + 1)
         else (year, month, n - preceding + 1))"

definition ord2ymd :: "int \<Rightarrow> int \<times> int \<times> int" where
  "ord2ymd n0 =
     (let n = n0 - 1;
          n400 = n div 146097; n = n mod 146097;
          n100 = n div 36524; n = n mod 36524;
          n4 = n div 1461; n = n mod 1461;
          n1 = n div 365; n = n mod 365;
          year = n400 * 400 + 1 + n100 * 100 + n4 * 4 + n1
      in if n1 = 4 \<or> n100 = 4 then (year - 1, 12, 31)
         else month_and_day year (n1 = 3 \<and> (n4 \<noteq> 24 \<or> n100 = 3)) n)"

subsection \<open>Parsing\<close>

definition digit_val :: "char \<Rightarrow> int option" where
  "digit_val c =
     (let n = (of_char c :: nat) in if 48 \<le> n \<and> n \<le> 57 then Some (int n - 48) else None)"

fun parse_digits_acc :: "int \<Rightarrow> string \<Rightarrow> int option" where
  "parse_digits_acc a [] = Some a"
| "parse_digits_acc a (c # cs) =
     (case digit_val c of None \<Rightarrow> None | Some d \<Rightarrow> parse_digits_acc (10 * a + d) cs)"

definition parse_digits :: "string \<Rightarrow> int option" where
  "parse_digits s = (if s = [] then None else parse_digits_acc 0 s)"

definition parse_isoformat_date :: "string \<Rightarrow> (int \<times> int \<times> int) option" where
  "parse_isoformat_date dstr =
     (if length dstr \<noteq> 10 \<or> dstr ! 4 \<noteq> CHR ''-'' \<or> dstr ! 7 \<noteq> CHR ''-'' then None
      else case parse_digits (take 4 dstr) of None \<Rightarrow> None
      | Some y \<Rightarrow>
        (case parse_digits (take 2 (drop 5 dstr)) of None \<Rightarrow> None
         | Some m \<Rightarrow>
           (case parse_digits (drop 8 dstr) of None \<Rightarrow> None
            | Some d \<Rightarrow> Some (y, m, d))))"

text \<open>One two-digit component and the rest of the string.\<close>

definition two_digits :: "string \<Rightarrow> (int \<times> string) option" where
  "two_digits s =
     (if length s < 2 then None
      else map_option (\<lambda>v. (v, drop 2 s)) (parse_digits (take 2 s)))"

text \<open>The fraction after the seconds: empty, or a dot and 3 or 6 digits.\<close>

definition parse_fraction :: "string \<Rightarrow> int option" where
  "parse_fraction s =
     (case s of [] \<Rightarrow> Some 0
      | c # f \<Rightarrow>
        if c \<noteq> CHR ''.'' then None
        else if length f = 3 then map_option (\<lambda>v. v * 1000) (parse_digits f)
        else if length f = 6 then parse_digits f
        else None)"

text \<open>\<open>_parse_hh_mm_ss_ff\<close>: \<open>HH[:MM[:SS[.fff[fff]]]]\<close>.\<close>

definition parse_hh_mm_ss_ff :: "string \<Rightarrow> (int \<times> int \<times> int \<times> int) option" where
  "parse_hh_mm_ss_ff tstr =
     (case two_digits tstr of None \<Rightarrow> None
      | Some (hh, r1) \<Rightarrow>
        (case r1 of [] \<Rightarrow> Some (hh, 0, 0, 0)
         | c1 # r2 \<Rightarrow>
           if c1 \<noteq> CHR '':'' then None
           else case two_digits r2 of None \<Rightarrow> None
           | Some (mm, r3) \<Rightarrow>
             (case r3 of [] \<Rightarrow> Some (hh, mm, 0, 0)
              | c2 # r4 \<Rightarrow>
                if c2 \<noteq> CHR '':'' then None
                else case two_digits r4 of None \<Rightarrow> None
                | Some (ss, r5) \<Rightarrow>
                  map_option (\<lambda>us. (hh, mm, ss, us)) (parse_fraction r5))))"

text \<open>\<open>tstr.find(c)\<close>: the position of the first occurrence.\<close>

fun find_char :: "char \<Rightarrow> string \<Rightarrow> nat option" where
  "find_char c [] = None"
| "find_char c (x # xs) = (if x = c then Some 0 else map_option Suc (find_char c xs))"

text \<open>
  \<open>_parse_isoformat_time\<close>: the time of day in microseconds, and the UTC offset in
  microseconds when the string has one. \<open>timezone(td)\<close> refuses an offset that is not
  strictly between -24 and 24 hours.
\<close>

definition parse_isoformat_time :: "string \<Rightarrow> (int \<times> int \<times> int \<times> int \<times> int option) option" where
  "parse_isoformat_time tstr =
     (if length tstr < 2 then None
      else
        let tz_pos = (case find_char CHR ''-'' tstr of Some i \<Rightarrow> Some i
                      | None \<Rightarrow> find_char CHR ''+'' tstr);
            timestr = (case tz_pos of Some i \<Rightarrow> take i tstr | None \<Rightarrow> tstr)
        in case parse_hh_mm_ss_ff timestr of None \<Rightarrow> None
           | Some (hh, mm, ss, us) \<Rightarrow>
             (case tz_pos of None \<Rightarrow> Some (hh, mm, ss, us, None)
              | Some i \<Rightarrow>
                let tzstr = drop (Suc i) tstr in
                if length tzstr \<noteq> 5 \<and> length tzstr \<noteq> 8 \<and> length tzstr \<noteq> 15 then None
                else case parse_hh_mm_ss_ff tzstr of None \<Rightarrow> None
                | Some (th, tm, ts, tu) \<Rightarrow>
                  let td = ((th * 3600 + tm * 60 + ts) * 1000000 + tu)
                           * (if tstr ! i = CHR ''-'' then - 1 else 1)
                  in if - day_us < td \<and> td < day_us then Some (hh, mm, ss, us, Some td)
                     else None))"

text \<open>
  A parsed datetime: its wall-clock fields as microseconds since 0001-01-01T00:00:00,
  and its \<open>tzinfo\<close> (the UTC offset in microseconds; \<open>None\<close> for a naive datetime).
\<close>

record pydatetime =
  wall :: int
  utcoffset :: "int option"

text \<open>The constructor \<open>datetime(year, month, day, hour, minute, second, microsecond)\<close>
  raises on a field out of range.\<close>

definition make_wall :: "int \<Rightarrow> int \<Rightarrow> int \<Rightarrow> int \<Rightarrow> int \<Rightarrow> int \<Rightarrow> int \<Rightarrow> int option" where
  "make_wall y m d hh mm ss us =
     (if 1 \<le> y \<and> y \<le> 9999 \<and> 1 \<le> m \<and> m \<le> 12 \<and> 1 \<le> d \<and> d \<le> days_in_month y m
         \<and> 0 \<le> hh \<and> hh \<le> 23 \<and> 0 \<le> mm \<and> mm \<le> 59 \<and> 0 \<le> ss \<and> ss \<le> 59
         \<and> 0 \<le> us \<and> us \<le> 999999
      then Some (((ymd2ord y m d - 1) * 86400 + hh * 3600 + mm * 60 + ss) * 1000000 + us)
      else None)"

definition fromisoformat :: "string \<Rightarrow> pydatetime option" where
  "fromisoformat date_string =
     (case parse_isoformat_date (take 10 date_string) of None \<Rightarrow> None
      | Some (y, m, d) \<Rightarrow>
        let tstr = drop 11 date_string in
        if tstr = [] then
          map_option (\<lambda>w. \<lparr>wall = w, utcoffset = None\<rparr>) (make_wall y m d 0 0 0 0)
        else case parse_isoformat_time tstr of None \<Rightarrow> None
        | Some (hh, mm, ss, us, tz) \<Rightarrow>
          map_option (\<lambda>w. \<lparr>wall = w, utcoffset = tz\<rparr>) (make_wall y m d hh mm ss us))"

text \<open>
  \<open>dt.astimezone(TZ)\<close> for an aware datetime with a fixed offset: first \<open>dt - offset\<close>, then
  the zone's \<open>fromutc\<close>; either step raises \<open>OverflowError\<close> outside the years 1 to 9999.
\<close>

definition astimezone_TZ :: "int \<Rightarrow> int \<Rightarrow> instant option" where
  "astimezone_TZ w off =
     (let utc = w - off in
      if \<not> in_range utc then None
      else if \<not> in_range (utc + tz_offset) then None
      else Some (utc + tz_offset))"

subsection \<open>Serialising\<close>

text \<open>\<open>"%0kd" % n\<close> for \<open>0 \<le> n < 10 ^ k\<close>.\<close>

fun pad_digits :: "nat \<Rightarrow> int \<Rightarrow> string" where
  "pad_digits 0 n = []"
| "pad_digits (Suc k) n = pad_digits k (n div 10) @ [char_of (48 + n mod 10)]"

text \<open>
  \<open>dt.isoformat()\<close> of a datetime in \<open>TZ\<close>: date, \<open>T\<close>, time, the microseconds when they are
  not zero, and the offset \<open>+08:00\<close>. \<open>format_fields\<close> writes the fields; \<open>isoformat\<close> takes them
  from the microsecond count.
\<close>

definition format_fields :: "int \<Rightarrow> int \<Rightarrow> int \<Rightarrow> int \<Rightarrow> int \<Rightarrow> int \<Rightarrow> int \<Rightarrow> string" where
  "format_fields y m d hh mm ss us =
     pad_digits 4 y @ ''-'' @ pad_digits 2 m @ ''-'' @ pad_digits 2 d @ ''T''
     @ pad_digits 2 hh @ '':'' @ pad_digits 2 mm @ '':'' @ pad_digits 2 ss
     @ (if us \<noteq> 0 then ''.'' @ pad_digits 6 us else [])
     @ ''+08:00''"

definition isoformat :: "instant \<Rightarrow> string" where
  "isoformat w =
     (let days = w div day_us; r = w mod day_us;
          (y, m, d) = ord2ymd (days + 1);
          secs = r div 1000000; us = r mod 1000000;
          hh = secs div 3600; mm = (secs mod 3600) div 60; ss = secs mod 60
      in format_fields y m d hh mm ss us)"

section \<open>The spider\<close>

subsection \<open>\<open>_parse_datetime\<close>\<close>

text \<open>
  Every exception of the \<open>try\<close> block gives \<open>None\<close>. A naive result gets \<open>tzinfo = TZ\<close>, and
  \<open>astimezone(TZ)\<close> then returns it unchanged.
\<close>

definition parse_datetime :: "string option \<Rightarrow> instant option" where
  "parse_datetime so =
     (case so of None \<Rightarrow> None
      | Some s0 \<Rightarrow>
        if s0 = [] then None
        else
          let s = strip s0 in
          case (if endswith s ''Z'' then fromisoformat (replace_Z s) else fromisoformat s) of
            None \<Rightarrow> None
          | Some dt \<Rightarrow>
            (case utcoffset dt of
               None \<Rightarrow> Some (wall dt)
             | Some off \<Rightarrow> astimezone_TZ (wall dt) off))"

subsection \<open>Configuration and run state\<close>

text \<open>
  The spider object holds the run parameters and the mutable run state. \<open>int(...)\<close> of an
  argument is any integer, so the limits are integers.
\<close>

record spider =
  max_scroll :: "int option"
  max_urls :: "int option"
  old_streak_stop :: int
  end_dt :: instant
  start_dt :: instant
  seen_urls :: "string fset"
  old_count_streak :: int
  seen_recent_article :: bool
  stop_requested :: bool
  item_count :: int

text \<open>
  \<open>__init__\<close>, given the window end (parsed from \<open>end\<close>, or the current time).
  \<open>end_dt - timedelta(hours=1)\<close> raises before 0001-01-01T01:00.
\<close>

definition init_spider :: "instant \<Rightarrow> int option \<Rightarrow> int option \<Rightarrow> int \<Rightarrow> spider option" where
  "init_spider end_arg max_scroll_arg max_urls_arg old_streak_stop_arg =
     (if \<not> in_range (end_arg - hour_us) then None
      else Some \<lparr>max_scroll = max_scroll_arg, max_urls = max_urls_arg,
                 old_streak_stop = old_streak_stop_arg,
                 end_dt = end_arg, start_dt = end_arg - hour_us,
                 seen_urls = {||}, old_count_streak = 0, seen_recent_article = False,
                 stop_requested = False, item_count = 0\<rparr>)"

subsection \<open>\<open>parse_archive\<close>\<close>

text \<open>
  An anchor of the rendered listing, as the loop body reads it: its \<open>href\<close> attribute, the
  absolute URL \<open>response.urljoin(h)\<close>, and the results of the three \<open>time[@datetime]\<close>
  queries (inside the anchor, on the nearest ancestor with a \<open>time\<close> child, on the nearest
  ancestor with a \<open>time\<close> descendant).
\<close>

record anchor =
  href :: "string option"
  joined :: string
  time_inside :: "string option"
  time_parent :: "string option"
  time_ancestor :: "string option"

record request =
  req_url :: string
  req_hint :: "string option"

text \<open>Lines 155-159: the first non-empty result of the three queries.\<close>

definition archive_dt_str :: "anchor \<Rightarrow> string option" where
  "archive_dt_str a = py_or (py_or (time_inside a) (time_parent a)) (time_ancestor a)"

datatype flow = Continue | Break

definition max_urls_hit :: "spider \<Rightarrow> bool" where
  "max_urls_hit sp =
     (case max_urls sp of None \<Rightarrow> False | Some m \<Rightarrow> int (fcard (seen_urls sp)) \<ge> m)"

text \<open>Lines 174-184: record the URL, yield the request, stop the round at \<open>max_urls\<close>.\<close>

definition dispatch :: "string \<Rightarrow> string option \<Rightarrow> spider \<Rightarrow> spider \<times> request list \<times> flow" where
  "dispatch url dt_str sp =
     (let sp' = sp\<lparr>seen_urls := finsert url (seen_urls sp)\<rparr>
      in (sp', [\<lparr>req_url = url, req_hint = dt_str\<rparr>],
          if max_urls_hit sp' then Break else Continue))"

text \<open>The body of \<open>for anchor in anchors\<close> (lines 143-184).\<close>

definition anchor_body :: "anchor \<Rightarrow> spider \<Rightarrow> spider \<times> request list \<times> flow" where
  "anchor_body a sp =
     (if \<not> truthy (href a) then (sp, [], Continue)
      else
        let url = joined a in
        if \<not> startswith url ''https://tw.news.yahoo.com/'' then (sp, [], Continue)
        else if \<not> endswith url ''.html'' then (sp, [], Continue)
        else if url |\<in>| seen_urls sp then (sp, [], Continue)
        else
          let dt_str = archive_dt_str a
          in (case parse_datetime dt_str of
                None \<Rightarrow> dispatch url dt_str sp
              | Some archive_pub_dt \<Rightarrow>
                  if archive_pub_dt > end_dt sp then (sp, [], Continue)
                  else if archive_pub_dt < start_dt sp then
                    (if seen_recent_article sp then
                       let sp1 = sp\<lparr>old_count_streak := old_count_streak sp + 1\<rparr>
                       in if old_count_streak sp1 \<ge> old_streak_stop sp1
                          then (sp1\<lparr>stop_requested := True\<rparr>, [], Break)
                          else (sp1, [], Continue)
                     else (sp, [], Continue))
                  else
                    dispatch url dt_str
                      (sp\<lparr>seen_recent_article := True, old_count_streak := 0\<rparr>)))"

text \<open>\<open>for anchor in anchors\<close>: the state after the round and the requests it yielded.\<close>

fun for_anchors :: "anchor list \<Rightarrow> spider \<Rightarrow> spider \<times> request list" where
  "for_anchors [] sp = (sp, [])"
| "for_anchors (a # as) sp =
     (case anchor_body a sp of
        (sp', out, Break) \<Rightarrow> (sp', out)
      | (sp', out, Continue) \<Rightarrow>
          (case for_anchors as sp' of (sp'', out') \<Rightarrow> (sp'', out @ out')))"

text \<open>
  The \<open>while True\<close> loop. The browser's successive renderings (\<open>page.content()\<close>, one per
  round) are the input; the loop itself has no bound, so a run that uses up the renderings
  it was given ends as \<open>Awaiting_content\<close>. The result is the state, the requests yielded, why
  the loop ended, and \<open>scroll_round\<close>.
\<close>

datatype stop_reason = Stop_requested | Hit_max_scroll | Hit_max_urls | Awaiting_content

definition max_scroll_hit :: "spider \<Rightarrow> int \<Rightarrow> bool" where
  "max_scroll_hit sp scroll_round =
     (case max_scroll sp of None \<Rightarrow> False | Some m \<Rightarrow> scroll_round \<ge> m)"

fun scroll_loop :: "int \<Rightarrow> anchor list list \<Rightarrow> spider \<Rightarrow> spider \<times> request list \<times> stop_reason \<times> int" where
  "scroll_loop scroll_round [] sp =
     (if stop_requested sp then (sp, [], Stop_requested, scroll_round)
      else if max_scroll_hit sp scroll_round then (sp, [], Hit_max_scroll, scroll_round)
      else (sp, [], Awaiting_content, scroll_round))"
| "scroll_loop scroll_round (anchors # later) sp =
     (if stop_requested sp then (sp, [], Stop_requested, scroll_round)
      else if max_scroll_hit sp scroll_round then (sp, [], Hit_max_scroll, scroll_round)
      else
        (case for_anchors anchors sp of
           (sp', out) \<Rightarrow>
             if max_urls_hit sp' then (sp', out, Hit_max_urls, scroll_round + 1)
             else
               (case scroll_loop (scroll_round + 1) later sp' of
                  (sp'', out', reason, n) \<Rightarrow> (sp'', out @ out', reason, n))))"

definition parse_archive :: "anchor list list \<Rightarrow> spider \<Rightarrow> spider \<times> request list \<times> stop_reason \<times> int" where
  "parse_archive renderings sp = scroll_loop 0 renderings sp"

subsection \<open>\<open>parse_article\<close>\<close>

text \<open>
  The article response as the callback reads it: its URL, and the first match of each
  selector. \<open>_extract_from_jsonld\<close> supplies the structured-data author and provider.
\<close>

record response =
  resp_url :: string
  h1_text :: "string option"
  jsonld_author :: "string option"
  jsonld_provider :: "string option"
  meta_author :: "string option"
  rel_author_text :: "string option"
  og_site_name :: "string option"
  application_name :: "string option"
  time_datetime :: "string option"
  meta_published_time :: "string option"
  meta_pubdate :: "string option"

record item =
  link :: string
  title :: "string option"
  author :: "string option"
  provider :: "string option"
  date :: string

text \<open>Lines 217-222: the date string of the page, and the resolved publication date.\<close>

definition page_dt_str :: "response \<Rightarrow> string option" where
  "page_dt_str r = py_or (py_or (time_datetime r) (meta_published_time r)) (meta_pubdate r)"

definition resolve_pub_dt :: "response \<Rightarrow> string option \<Rightarrow> instant option" where
  "resolve_pub_dt r hint =
     (case parse_datetime (page_dt_str r) of
        Some dt \<Rightarrow> Some dt
      | None \<Rightarrow> parse_datetime hint)"

definition make_item :: "response \<Rightarrow> instant \<Rightarrow> item" where
  "make_item r pub_dt =
     \<lparr>link = resp_url r,
      title = strip_opt (h1_text r),
      author = strip_opt (py_or (py_or (jsonld_author r) (meta_author r)) (rel_author_text r)),
      provider = strip_opt (py_or (py_or (jsonld_provider r) (og_site_name r)) (application_name r)),
      date = isoformat pub_dt\<rparr>"

definition parse_article :: "response \<Rightarrow> string option \<Rightarrow> spider \<Rightarrow> spider \<times> item list" where
  "parse_article r hint sp =
     (case resolve_pub_dt r hint of
        None \<Rightarrow> (sp, [])
      | Some pub_dt \<Rightarrow>
          if pub_dt > end_dt sp then (sp, [])
          else if pub_dt < start_dt sp then
            (if seen_recent_article sp then
               let sp1 = sp\<lparr>old_count_streak := old_count_streak sp + 1\<rparr>
               in if old_count_streak sp1 \<ge> old_streak_stop sp1
                  then (sp1\<lparr>stop_requested := True\<rparr>, [])
                  else (sp1, [])
             else (sp, []))
          else
            let sp2 = sp\<lparr>seen_recent_article := True, old_count_streak := 0\<rparr>
            in if \<not> (start_dt sp2 \<le> pub_dt \<and> pub_dt \<le> end_dt sp2) then (sp2, [])
               else (sp2\<lparr>item_count := item_count sp2 + 1\<rparr>, [make_item r pub_dt]))"

subsection \<open>The comparisons against the window\<close>

text \<open>
  Both callbacks test a parsed instant with the same two comparisons
  (\<open>dt > self.end_dt\<close>, lines 162 and 227; \<open>dt < self.start_dt\<close>, lines 164 and 231).
  \<open>classify\<close> names their three outcomes as the code has them: an instant equal to \<open>end_dt\<close>
  is not greater than it, so it falls in the middle branch.
\<close>

datatype verdict = TOO_NEW | IN_WINDOW | TOO_OLD

definition classify :: "spider \<Rightarrow> instant \<Rightarrow> verdict" where
  "classify sp t =
     (if t > end_dt sp then TOO_NEW else if t < start_dt sp then TOO_OLD else IN_WINDOW)"

text \<open>
  The classification in the words of the spec (section 4.5): too new if the
  instant is at or after the end of the window, too old if it is before the start, in the
  window otherwise. It is not taken from the code; it differs from \<open>classify\<close> at the single
  instant \<open>end_dt\<close>, and the claims about the streak are stated against it.
\<close>

definition spec_classify :: "spider \<Rightarrow> instant \<Rightarrow> verdict" where
  "spec_classify sp t =
     (if t \<ge> end_dt sp then TOO_NEW else if t < start_dt sp then TOO_OLD else IN_WINDOW)"

text \<open>
  The instant the listing-level check looks at: the parsed card timestamp of an anchor
  that passed the URL tests and is not yet in \<open>seen_urls\<close> (lines 144-160).
\<close>

definition is_candidate :: "anchor \<Rightarrow> spider \<Rightarrow> bool" where
  "is_candidate a sp =
     (truthy (href a) \<and> startswith (joined a) ''https://tw.news.yahoo.com/''
      \<and> endswith (joined a) ''.html'' \<and> joined a |\<notin>| seen_urls sp)"

definition listing_instant :: "anchor \<Rightarrow> spider \<Rightarrow> instant option" where
  "listing_instant a sp = (if is_candidate a sp then parse_datetime (archive_dt_str a) else None)"

subsection \<open>A run of the crawl\<close>

text \<open>
  The framework calls the loop body of \<open>parse_archive\<close> and the callback \<open>parse_article\<close>
  in some interleaving: each request the archive callback yields is fetched once, and its
  response (whose URL is the request's) is handed to \<open>parse_article\<close> with the hint the
  request carries, or the fetch fails and no callback runs. A run is a sequence of such
  events; \<open>requested\<close> logs every request yielded and \<open>feed\<close> every item yielded.
\<close>

record crawl =
  spider_of :: spider
  pending :: "request list"
  requested :: "request list"
  feed :: "item list"

datatype event =
    Listing_anchor anchor
  | Article_arrives nat response
  | Fetch_fails nat

definition init_crawl :: "spider \<Rightarrow> crawl" where
  "init_crawl sp = \<lparr>spider_of = sp, pending = [], requested = [], feed = []\<rparr>"

definition remove_nth :: "nat \<Rightarrow> 'a list \<Rightarrow> 'a list" where
  "remove_nth i xs = take i xs @ drop (Suc i) xs"

fun crawl_step :: "crawl \<Rightarrow> event \<Rightarrow> crawl" where
  "crawl_step c (Listing_anchor a) =
     (case anchor_body a (spider_of c) of
        (sp', out, fl) \<Rightarrow>
          c\<lparr>spider_of := sp', pending := pending c @ out, requested := requested c @ out\<rparr>)"
| "crawl_step c (Article_arrives i r) =
     (if i < length (pending c) then
        (case parse_article (r\<lparr>resp_url := req_url (pending c ! i)\<rparr>)
                (req_hint (pending c ! i)) (spider_of c) of
           (sp', items) \<Rightarrow>
             c\<lparr>spider_of := sp', pending := remove_nth i (pending c), feed := feed c @ items\<rparr>)
      else c)"
| "crawl_step c (Fetch_fails i) = c\<lparr>pending := remove_nth i (pending c)\<rparr>"

definition crawl_run :: "event list \<Rightarrow> crawl \<Rightarrow> crawl" where
  "crawl_run evs c = foldl crawl_step c evs"

section \<open>Structured data: name resolution\<close>

text \<open>
  A value decoded by \<open>json.loads\<close>. A JSON object is a \<open>dict\<close>; its keys are distinct, so
  \<open>value.get("name")\<close> is the lookup in the list of its entries.
\<close>

datatype json =
    JNull
  | JBool bool
  | JNum int
  | JStr string
  | JList "json list"
  | JDict "(string \<times> json) list"

text \<open>The branch shared by both functions for a \<open>dict\<close> (lines 406-410 and 424-428).\<close>

definition name_of_dict :: "(string \<times> json) list \<Rightarrow> string option" where
  "name_of_dict kvs =
     (case map_of kvs ''name'' of
        Some (JStr name) \<Rightarrow> if strip name \<noteq> [] then Some (strip name) else None
      | _ \<Rightarrow> None)"

text \<open>\<open>value.strip() or None\<close>\<close>

definition strip_or_none :: "string \<Rightarrow> string option" where
  "strip_or_none v = (if strip v \<noteq> [] then Some (strip v) else None)"

text \<open>
  \<open>_extract_person_name\<close>; \<open>person_names\<close> is its loop over a list, collecting \<open>names\<close>.
\<close>

fun extract_person_name :: "json \<Rightarrow> string option"
  and person_names :: "json list \<Rightarrow> string list" where
  "extract_person_name (JStr v) = strip_or_none v"
| "extract_person_name (JDict kvs) = name_of_dict kvs"
| "extract_person_name (JList items) =
     (let names = person_names items in if names \<noteq> [] then Some (join_comma names) else None)"
| "extract_person_name JNull = None"
| "extract_person_name (JBool b) = None"
| "extract_person_name (JNum n) = None"
| "person_names [] = []"
| "person_names (x # xs) =
     (case extract_person_name x of
        None \<Rightarrow> person_names xs
      | Some n \<Rightarrow> if n \<noteq> [] then n # person_names xs else person_names xs)"

text \<open>\<open>_extract_org_name\<close>; \<open>first_org_name\<close> is its loop, returning at the first name.\<close>

fun extract_org_name :: "json \<Rightarrow> string option"
  and first_org_name :: "json list \<Rightarrow> string option" where
  "extract_org_name (JStr v) = strip_or_none v"
| "extract_org_name (JDict kvs) = name_of_dict kvs"
| "extract_org_name (JList items) = first_org_name items"
| "extract_org_name JNull = None"
| "extract_org_name (JBool b) = None"
| "extract_org_name (JNum n) = None"
| "first_org_name [] = None"
| "first_org_name (x # xs) =
     (case extract_org_name x of
        None \<Rightarrow> first_org_name xs
      | Some n \<Rightarrow> if n \<noteq> [] then Some n else first_org_name xs)"

section \<open>Sorting the output\<close>

text \<open>
  A row read by \<open>csv.DictReader\<close> maps column names to strings. The output file is its
  header and its rows, or is absent.
\<close>

type_synonym row = "(string \<times> string) list"

text \<open>
  The sort key of line 296:
  \<open>self._parse_datetime(row.get("date") or "") or datetime.min.replace(tzinfo=TZ)\<close>.
\<close>

definition date_key :: "row \<Rightarrow> instant" where
  "date_key r =
     (case parse_datetime (py_or (map_of r ''date'') (Some [])) of
        Some t \<Rightarrow> t
      | None \<Rightarrow> 0)"

text \<open>
  Lines 293-300: the rows are numbered, sorted by the pair of date key and number, and
  the numbers dropped. The pairs are pairwise different, so the order of the result does
  not depend on the sorting algorithm.
\<close>

definition sort_rows :: "row list \<Rightarrow> row list" where
  "sort_rows rows =
     map snd (sort_key (\<lambda>pair. (date_key (snd pair), fst pair)) (enumerate 0 rows))"

definition sort_output_csv_by_date ::
  "(string list \<times> row list) option \<Rightarrow> (string list \<times> row list) option" where
  "sort_output_csv_by_date csv =
     (case csv of
        None \<Rightarrow> None
      | Some (fieldnames, rows) \<Rightarrow>
          if rows = [] \<or> fieldnames = [] \<or> ''date'' \<notin> set fieldnames then Some (fieldnames, rows)
          else Some (fieldnames, sort_rows rows))"

section \<open>Properties of a step and of a run\<close>

text \<open>The run parameters of two states of the spider agree.\<close>

definition same_config :: "spider \<Rightarrow> spider \<Rightarrow> bool" where
  "same_config sp sp' =
     (max_scroll sp' = max_scroll sp \<and> max_urls sp' = max_urls sp
      \<and> old_streak_stop sp' = old_streak_stop sp
      \<and> end_dt sp' = end_dt sp \<and> start_dt sp' = start_dt sp)"

text \<open>
  From one state to a later one no flag has gone back to \<open>False\<close> and no URL has left
  \<open>seen_urls\<close>.
\<close>

definition grows :: "spider \<Rightarrow> spider \<Rightarrow> bool" where
  "grows sp sp' =
     ((stop_requested sp \<longrightarrow> stop_requested sp')
      \<and> (seen_recent_article sp \<longrightarrow> seen_recent_article sp')
      \<and> seen_urls sp |\<subseteq>| seen_urls sp')"



text \<open>
  What holds of the streak counter in every state of a run: it is not negative, it is 0
  until an in-window item has been seen, and (for a positive threshold) it is below the
  threshold as long as no stop is requested.
\<close>

definition streak_inv0 :: "spider \<Rightarrow> bool" where
  "streak_inv0 sp =
     (0 \<le> old_count_streak sp \<and> (\<not> seen_recent_article sp \<longrightarrow> old_count_streak sp = 0))"


text \<open>
  The requests \<open>out\<close> yielded while \<open>seen_urls\<close> went from \<open>seen\<close> to \<open>seen'\<close>: their URLs
  are pairwise different, none was seen before, and they are what \<open>seen_urls\<close> gained.
\<close>

definition dispatch_ok :: "string fset \<Rightarrow> request list \<Rightarrow> string fset \<Rightarrow> bool" where
  "dispatch_ok seen out seen' =
     (distinct (map req_url out) \<and> set (map req_url out) \<inter> fset seen = {}
      \<and> fset seen' = fset seen \<union> set (map req_url out))"

text \<open>
  The bookkeeping of a run: no URL was requested twice, every requested URL is in
  \<open>seen_urls\<close>, the pending requests and the links of the items fed are requested URLs, each at
  most once, and no pending request has already fed an item.
\<close>

definition urls_inv :: "string fset \<Rightarrow> string list \<Rightarrow> string list \<Rightarrow> string list \<Rightarrow> bool" where
  "urls_inv seen req pend fed =
     (distinct req \<and> set req \<subseteq> fset seen
      \<and> distinct pend \<and> set pend \<subseteq> set req
      \<and> distinct fed \<and> set fed \<subseteq> set req
      \<and> set fed \<inter> set pend = {})"

definition crawl_inv :: "crawl \<Rightarrow> bool" where
  "crawl_inv c =
     urls_inv (seen_urls (spider_of c)) (map req_url (requested c))
       (map req_url (pending c)) (map link (feed c))"

text \<open>
  A qualifying candidate of a round: an anchor that passes the URL tests and whose card
  timestamp is absent or unparseable, or parses to an instant the listing check lets through
  as in-window.
\<close>

definition qualifies :: "spider \<Rightarrow> anchor \<Rightarrow> bool" where
  "qualifies sp a =
     (truthy (href a) \<and> startswith (joined a) ''https://tw.news.yahoo.com/''
      \<and> endswith (joined a) ''.html''
      \<and> (case parse_datetime (archive_dt_str a) of
            None \<Rightarrow> True
          | Some t \<Rightarrow> classify sp t = IN_WINDOW))"

text \<open>
  The date sources of an article page, in the order the callback reads them; the first
  source of a list that is present (not \<open>None\<close>, not empty); and the instant of the first
  source of a list that parses.
\<close>

definition page_sources :: "response \<Rightarrow> string option list" where
  "page_sources r = [time_datetime r, meta_published_time r, meta_pubdate r]"

definition first_present :: "string option list \<Rightarrow> string option" where
  "first_present srcs = (case filter truthy srcs of [] \<Rightarrow> None | s # rest \<Rightarrow> s)"

definition first_parsing :: "string option list \<Rightarrow> instant option" where
  "first_parsing srcs =
     (case List.map_filter parse_datetime srcs of [] \<Rightarrow> None | t # rest \<Rightarrow> Some t)"

text \<open>
  The fields of a valid datetime, the microsecond count the constructor gives them, and
  the parts of their ISO form: the date, the time of day, and both joined by \<open>T\<close> (the form
  without offset). \<open>month_start\<close> and \<open>month_len\<close> are the days before a month and in it, by
  month number and leap flag.
\<close>

definition valid_fields :: "int \<Rightarrow> int \<Rightarrow> int \<Rightarrow> int \<Rightarrow> int \<Rightarrow> int \<Rightarrow> int \<Rightarrow> bool" where
  "valid_fields y m d hh mm ss us =
     (1 \<le> y \<and> y \<le> 9999 \<and> 1 \<le> m \<and> m \<le> 12 \<and> 1 \<le> d \<and> d \<le> days_in_month y m
      \<and> 0 \<le> hh \<and> hh \<le> 23 \<and> 0 \<le> mm \<and> mm \<le> 59 \<and> 0 \<le> ss \<and> ss \<le> 59
      \<and> 0 \<le> us \<and> us \<le> 999999)"

definition wall_of_fields :: "int \<Rightarrow> int \<Rightarrow> int \<Rightarrow> int \<Rightarrow> int \<Rightarrow> int \<Rightarrow> int \<Rightarrow> int" where
  "wall_of_fields y m d hh mm ss us =
     ((ymd2ord y m d - 1) * 86400 + hh * 3600 + mm * 60 + ss) * 1000000 + us"

definition date_part :: "int \<Rightarrow> int \<Rightarrow> int \<Rightarrow> string" where
  "date_part y m d = pad_digits 4 y @ ''-'' @ pad_digits 2 m @ ''-'' @ pad_digits 2 d"

definition time_part :: "int \<Rightarrow> int \<Rightarrow> int \<Rightarrow> int \<Rightarrow> string" where
  "time_part hh mm ss us =
     pad_digits 2 hh @ '':'' @ pad_digits 2 mm @ '':'' @ pad_digits 2 ss
     @ (if us \<noteq> 0 then ''.'' @ pad_digits 6 us else [])"

definition utc_body :: "int \<Rightarrow> int \<Rightarrow> int \<Rightarrow> int \<Rightarrow> int \<Rightarrow> int \<Rightarrow> int \<Rightarrow> string" where
  "utc_body y m d hh mm ss us = date_part y m d @ ''T'' @ time_part hh mm ss us"

definition month_len :: "int \<Rightarrow> bool \<Rightarrow> int" where
  "month_len m L =
     (if m = 2 then 28 else if m = 4 \<or> m = 6 \<or> m = 9 \<or> m = 11 then 30 else 31)
     + (if m = 2 \<and> L then 1 else 0)"

definition month_start :: "int \<Rightarrow> bool \<Rightarrow> int" where
  "month_start m L = days_before_month_tab m + (if m > 2 \<and> L then 1 else 0)"

section \<open>Example inputs\<close>

text \<open>
  The window 2024-06-01 09:00 to 10:00 (Taipei time) with \<open>max_urls = 5\<close>, before anything
  was seen; the same spider later in a run; a listing anchor; an article response.
\<close>

definition example_spider :: spider where
  "example_spider =
     \<lparr>max_scroll = None, max_urls = Some 5, old_streak_stop = 20,
      end_dt = 63852832800000000, start_dt = 63852829200000000,
      seen_urls = {||}, old_count_streak = 0, seen_recent_article = False,
      stop_requested = False, item_count = 0\<rparr>"

definition warm_spider :: spider where
  "warm_spider = example_spider\<lparr>seen_recent_article := True, old_count_streak := 19\<rparr>"


definition stopped_spider :: spider where
  "stopped_spider = example_spider\<lparr>seen_recent_article := True, stop_requested := True,
      seen_urls := {|''https://tw.news.yahoo.com/a.html''|}\<rparr>"

definition example_anchor :: "string \<Rightarrow> string option \<Rightarrow> anchor" where
  "example_anchor name t =
     \<lparr>href = Some (''/'' @ name @ ''.html''),
      joined = ''https://tw.news.yahoo.com/'' @ name @ ''.html'',
      time_inside = t, time_parent = None, time_ancestor = None\<rparr>"

definition example_response :: "string option \<Rightarrow> string option \<Rightarrow> response" where
  "example_response t m =
     \<lparr>resp_url = ''https://tw.news.yahoo.com/a.html'', h1_text = Some '' Title '',
      jsonld_author = None, jsonld_provider = None, meta_author = None,
      rel_author_text = None, og_site_name = None, application_name = None,
      time_datetime = t, meta_published_time = m, meta_pubdate = None\<rparr>"

text \<open>Eight candidates of one rendering, all qualifying for that window.\<close>

definition eight_anchors :: "anchor list" where
  "eight_anchors =
     [example_anchor ''n1'' (Some ''2024-06-01T09:59:00+08:00''),
      example_anchor ''n2'' (Some ''2024-06-01T09:50:00+08:00''),
      example_anchor ''n3'' None,
      example_anchor ''n4'' (Some ''2024-06-01T01:40:00Z''),
      example_anchor ''n5'' (Some ''2024-06-01T09:30:00+08:00''),
      example_anchor ''n6'' (Some ''2024-06-01T09:20:00+08:00''),
      example_anchor ''n7'' None,
      example_anchor ''n8'' (Some ''2024-06-01T09:00:00+08:00'')]"

text \<open>Rows of an output file, in date order, with a tie between the last two.\<close>

definition example_rows :: "row list" where
  "example_rows =
     [[(''link'', ''https://tw.news.yahoo.com/b.html''), (''date'', ''2024-06-01T09:10:00+08:00'')],
      [(''link'', ''https://tw.news.yahoo.com/c.html''), (''date'', ''2024-06-01T09:30:00+08:00'')],
      [(''link'', ''https://tw.news.yahoo.com/a.html''), (''date'', ''2024-06-01T01:30:00Z'')]]"


section \<open>The two callbacks, case by case\<close>

lemma anchor_body_cases:
  "anchor_body a sp =
     (case listing_instant a sp of
        None \<Rightarrow> if is_candidate a sp then dispatch (joined a) (archive_dt_str a) sp
                else (sp, [], Continue)
      | Some t \<Rightarrow>
         (case classify sp t of
            TOO_NEW \<Rightarrow> (sp, [], Continue)
          | TOO_OLD \<Rightarrow>
              if seen_recent_article sp then
                (if old_count_streak sp + 1 \<ge> old_streak_stop sp
                 then (sp\<lparr>old_count_streak := old_count_streak sp + 1, stop_requested := True\<rparr>, [], Break)
                 else (sp\<lparr>old_count_streak := old_count_streak sp + 1\<rparr>, [], Continue))
              else (sp, [], Continue)
          | IN_WINDOW \<Rightarrow>
              dispatch (joined a) (archive_dt_str a)
                (sp\<lparr>seen_recent_article := True, old_count_streak := 0\<rparr>)))"
  by (auto simp add: anchor_body_def listing_instant_def is_candidate_def classify_def Let_def
      split: option.splits)

lemma parse_article_cases:
  "parse_article r h sp =
     (case resolve_pub_dt r h of
        None \<Rightarrow> (sp, [])
      | Some t \<Rightarrow>
         (case classify sp t of
            TOO_NEW \<Rightarrow> (sp, [])
          | TOO_OLD \<Rightarrow>
              if seen_recent_article sp then
                (if old_count_streak sp + 1 \<ge> old_streak_stop sp
                 then (sp\<lparr>old_count_streak := old_count_streak sp + 1, stop_requested := True\<rparr>, [])
                 else (sp\<lparr>old_count_streak := old_count_streak sp + 1\<rparr>, [])) 
              else (sp, [])
          | IN_WINDOW \<Rightarrow>
              (sp\<lparr>seen_recent_article := True, old_count_streak := 0,
                  item_count := item_count sp + 1\<rparr>, [make_item r t])))"
  by (auto simp add: parse_article_def classify_def Let_def split: option.splits)

lemma init_spider_fields:
  "init_spider e ms mu k = Some sp0 \<Longrightarrow>
     old_streak_stop sp0 = k \<and> end_dt sp0 = e \<and> start_dt sp0 = e - hour_us
     \<and> max_urls sp0 = mu \<and> max_scroll sp0 = ms \<and> seen_urls sp0 = {||}
     \<and> old_count_streak sp0 = 0 \<and> \<not> seen_recent_article sp0 \<and> \<not> stop_requested sp0
     \<and> item_count sp0 = 0"
  by (auto simp add: init_spider_def split: if_splits)

lemma crawl_run_snoc: "crawl_run (evs @ [e]) c = crawl_step (crawl_run evs c) e"
  by (simp add: crawl_run_def)

subsection \<open>The run parameters never change\<close>

lemma same_config_refl: "same_config sp sp"
  by (simp add: same_config_def)

lemma same_config_trans: "same_config a b \<Longrightarrow> same_config b c \<Longrightarrow> same_config a c"
  by (simp add: same_config_def)

lemma anchor_body_same_config: "same_config sp (fst (anchor_body a sp))"
  by (auto simp add: anchor_body_cases dispatch_def same_config_def Let_def
      split: option.splits verdict.splits)

lemma parse_article_same_config: "same_config sp (fst (parse_article r h sp))"
  by (auto simp add: parse_article_cases same_config_def split: option.splits verdict.splits)

lemma crawl_step_same_config: "same_config (spider_of c) (spider_of (crawl_step c e))"
proof (cases e)
  case (Listing_anchor a)
  then show ?thesis using anchor_body_same_config [of "spider_of c" a]
    by (cases "anchor_body a (spider_of c)") simp
next
  case (Article_arrives i r)
  then show ?thesis
    using parse_article_same_config [of "spider_of c" "r\<lparr>resp_url := req_url (pending c ! i)\<rparr>" "req_hint (pending c ! i)"]
    by (cases "parse_article (r\<lparr>resp_url := req_url (pending c ! i)\<rparr>) (req_hint (pending c ! i)) (spider_of c)")
      (simp add: same_config_refl)
next
  case (Fetch_fails i)
  then show ?thesis by (simp add: same_config_refl)
qed

lemma crawl_run_same_config: "same_config (spider_of c) (spider_of (crawl_run evs c))"
proof (induction evs rule: rev_induct)
  case Nil
  show ?case by (simp add: crawl_run_def same_config_refl)
next
  case (snoc e evs)
  show ?case unfolding crawl_run_snoc
    using snoc crawl_step_same_config [of "crawl_run evs c" e] by (rule same_config_trans)
qed

subsection \<open>Flags and seen URLs\<close>

lemma grows_refl: "grows sp sp"
  by (simp add: grows_def)

lemma grows_trans: "grows a b \<Longrightarrow> grows b c \<Longrightarrow> grows a c"
  by (auto simp add: grows_def)

lemma anchor_body_grows: "grows sp (fst (anchor_body a sp))"
  by (auto simp add: anchor_body_cases dispatch_def grows_def Let_def
      split: option.splits verdict.splits)

lemma parse_article_grows: "grows sp (fst (parse_article r h sp))"
  by (auto simp add: parse_article_cases grows_def split: option.splits verdict.splits)

lemma for_anchors_grows: "grows sp (fst (for_anchors as sp))"
proof (induction as arbitrary: sp)
  case Nil
  show ?case by (simp add: grows_refl)
next
  case (Cons a as)
  obtain sp1 out fl where b: "anchor_body a sp = (sp1, out, fl)"
    by (cases "anchor_body a sp") auto
  have g1: "grows sp sp1" using anchor_body_grows [of sp a] b by simp
  show ?case
  proof (cases fl)
    case Break
    then show ?thesis using b g1 by simp
  next
    case Continue
    obtain sp2 out2 where f: "for_anchors as sp1 = (sp2, out2)"
      by (cases "for_anchors as sp1") auto
    have "grows sp1 sp2" using Cons.IH [of sp1] f by simp
    then show ?thesis using b f Continue g1 by (auto intro: grows_trans)
  qed
qed

lemma scroll_loop_grows: "grows sp (fst (scroll_loop n pages sp))"
proof (induction pages arbitrary: n sp)
  case Nil
  show ?case by (simp add: grows_refl)
next
  case (Cons p ps)
  obtain sp1 out where f: "for_anchors p sp = (sp1, out)"
    by (cases "for_anchors p sp") auto
  have g1: "grows sp sp1" using for_anchors_grows [of sp p] f by simp
  obtain sp2 out2 rs k where l: "scroll_loop (n + 1) ps sp1 = (sp2, out2, rs, k)"
    by (cases "scroll_loop (n + 1) ps sp1") auto
  have "grows sp1 sp2" using Cons.IH [of sp1 "n + 1"] l by simp
  then have "grows sp sp2" using g1 by (rule grows_trans [rotated])
  then show ?case using f l g1 by (simp add: grows_refl)
qed

lemma crawl_step_grows: "grows (spider_of c) (spider_of (crawl_step c e))"
proof (cases e)
  case (Listing_anchor a)
  then show ?thesis using anchor_body_grows [of "spider_of c" a]
    by (cases "anchor_body a (spider_of c)") simp
next
  case (Article_arrives i r)
  then show ?thesis
    using parse_article_grows [of "spider_of c" "r\<lparr>resp_url := req_url (pending c ! i)\<rparr>" "req_hint (pending c ! i)"]
    by (cases "parse_article (r\<lparr>resp_url := req_url (pending c ! i)\<rparr>) (req_hint (pending c ! i)) (spider_of c)")
      (simp add: grows_refl)
next
  case (Fetch_fails i)
  then show ?thesis by (simp add: grows_refl)
qed

lemma crawl_run_grows: "grows (spider_of c) (spider_of (crawl_run evs c))"
proof (induction evs rule: rev_induct)
  case Nil
  show ?case by (simp add: crawl_run_def grows_refl)
next
  case (snoc e evs)
  show ?case unfolding crawl_run_snoc
    using snoc crawl_step_grows [of "crawl_run evs c" e] by (rule grows_trans)
qed

subsection \<open>The streak counter\<close>

lemma anchor_body_streak_inv0: "streak_inv0 sp \<Longrightarrow> streak_inv0 (fst (anchor_body a sp))"
  by (auto simp add: anchor_body_cases dispatch_def streak_inv0_def Let_def
      split: option.splits verdict.splits)

lemma parse_article_streak_inv0: "streak_inv0 sp \<Longrightarrow> streak_inv0 (fst (parse_article r h sp))"
  by (auto simp add: parse_article_cases streak_inv0_def split: option.splits verdict.splits)

lemma crawl_step_streak_inv0:
  "streak_inv0 (spider_of c) \<Longrightarrow> streak_inv0 (spider_of (crawl_step c e))"
proof (cases e)
  case (Listing_anchor a)
  assume "streak_inv0 (spider_of c)"
  then show ?thesis using anchor_body_streak_inv0 [of "spider_of c" a] Listing_anchor
    by (cases "anchor_body a (spider_of c)") simp
next
  case (Article_arrives i r)
  assume "streak_inv0 (spider_of c)"
  then show ?thesis
    using parse_article_streak_inv0 [of "spider_of c" "r\<lparr>resp_url := req_url (pending c ! i)\<rparr>" "req_hint (pending c ! i)"] Article_arrives
    by (cases "parse_article (r\<lparr>resp_url := req_url (pending c ! i)\<rparr>) (req_hint (pending c ! i)) (spider_of c)")
      simp
next
  case (Fetch_fails i)
  assume "streak_inv0 (spider_of c)"
  then show ?thesis using Fetch_fails by simp
qed

lemma crawl_run_streak_inv0:
  "streak_inv0 (spider_of c) \<Longrightarrow> streak_inv0 (spider_of (crawl_run evs c))"
proof (induction evs rule: rev_induct)
  case Nil
  then show ?case by (simp add: crawl_run_def)
next
  case (snoc e evs)
  then show ?case unfolding crawl_run_snoc by (simp add: crawl_step_streak_inv0)
qed











lemma anchor_body_old_unseen:
  "listing_instant a sp = Some t \<Longrightarrow> classify sp t = TOO_OLD \<Longrightarrow> \<not> seen_recent_article sp
     \<Longrightarrow> anchor_body a sp = (sp, [], Continue)"
  by (simp add: anchor_body_cases)

lemma parse_article_old_unseen:
  "resolve_pub_dt r h = Some t \<Longrightarrow> classify sp t = TOO_OLD \<Longrightarrow> \<not> seen_recent_article sp
     \<Longrightarrow> parse_article r h sp = (sp, [])"
  by (simp add: parse_article_cases)

lemma anchor_body_streak_grows:
  "0 \<le> old_count_streak sp \<Longrightarrow> old_count_streak sp < old_count_streak (fst (anchor_body a sp))
     \<Longrightarrow> seen_recent_article sp"
  by (auto simp add: anchor_body_cases dispatch_def Let_def
      split: option.splits verdict.splits if_splits)

lemma parse_article_streak_grows:
  "0 \<le> old_count_streak sp \<Longrightarrow> old_count_streak sp < old_count_streak (fst (parse_article r h sp))
     \<Longrightarrow> seen_recent_article sp"
  by (auto simp add: parse_article_cases split: option.splits verdict.splits if_splits)

lemma anchor_body_seen_recent:
  "seen_recent_article (fst (anchor_body a sp)) \<Longrightarrow> \<not> seen_recent_article sp
     \<Longrightarrow> \<exists>t. listing_instant a sp = Some t \<and> classify sp t = IN_WINDOW"
  by (auto simp add: anchor_body_cases dispatch_def Let_def
      split: option.splits verdict.splits if_splits)

lemma parse_article_seen_recent:
  "seen_recent_article (fst (parse_article r h sp)) \<Longrightarrow> \<not> seen_recent_article sp
     \<Longrightarrow> \<exists>t. resolve_pub_dt r h = Some t \<and> classify sp t = IN_WINDOW"
  by (auto simp add: parse_article_cases split: option.splits verdict.splits if_splits)

text \<open>The spec's classes against the code's: they agree except at \<open>end_dt\<close>.\<close>

lemma spec_classify_too_old: "spec_classify sp t = TOO_OLD \<Longrightarrow> classify sp t = TOO_OLD"
  by (auto simp add: spec_classify_def classify_def split: if_splits)


lemma classify_in_window_closed:
  "classify sp t = IN_WINDOW \<Longrightarrow>
     start_dt sp \<le> t \<and> t \<le> end_dt sp \<and> (spec_classify sp t = IN_WINDOW \<or> t = end_dt sp)"
  by (auto simp add: spec_classify_def classify_def split: if_splits)


subsection \<open>Emitted items\<close>

lemma parse_article_items:
  "it \<in> set (snd (parse_article r h sp)) \<Longrightarrow>
     \<exists>t. resolve_pub_dt r h = Some t \<and> it = make_item r t \<and> start_dt sp \<le> t \<and> t \<le> end_dt sp"
  by (auto simp add: parse_article_cases classify_def split: option.splits verdict.splits if_splits)

lemma parse_article_at_most_one: "length (snd (parse_article r h sp)) \<le> 1"
  by (auto simp add: parse_article_cases split: option.splits verdict.splits)

lemma crawl_run_feed_dates:
  "\<forall>it \<in> set (feed c). \<exists>t. date it = isoformat t \<and> start_dt (spider_of c) \<le> t \<and> t \<le> end_dt (spider_of c)
   \<Longrightarrow> \<forall>it \<in> set (feed (crawl_run evs c)).
         \<exists>t. date it = isoformat t \<and> start_dt (spider_of c) \<le> t \<and> t \<le> end_dt (spider_of c)"
proof (induction evs rule: rev_induct)
  case Nil
  then show ?case by (simp add: crawl_run_def)
next
  case (snoc e evs)
  let ?c = "crawl_run evs c"
  have ih: "\<forall>it \<in> set (feed ?c).
         \<exists>t. date it = isoformat t \<and> start_dt (spider_of c) \<le> t \<and> t \<le> end_dt (spider_of c)"
    using snoc by simp
  have sc: "start_dt (spider_of ?c) = start_dt (spider_of c) \<and> end_dt (spider_of ?c) = end_dt (spider_of c)"
    using crawl_run_same_config [of c evs] by (simp add: same_config_def)
  show ?case unfolding crawl_run_snoc
  proof (cases e)
    case (Listing_anchor a)
    then show "\<forall>it \<in> set (feed (crawl_step ?c e)).
         \<exists>t. date it = isoformat t \<and> start_dt (spider_of c) \<le> t \<and> t \<le> end_dt (spider_of c)"
      using ih by (cases "anchor_body a (spider_of ?c)") simp
  next
    case (Fetch_fails i)
    then show "\<forall>it \<in> set (feed (crawl_step ?c e)).
         \<exists>t. date it = isoformat t \<and> start_dt (spider_of c) \<le> t \<and> t \<le> end_dt (spider_of c)"
      using ih by simp
  next
    case (Article_arrives i r)
    let ?r = "r\<lparr>resp_url := req_url (pending ?c ! i)\<rparr>" and ?h = "req_hint (pending ?c ! i)"
    obtain sp' items where p: "parse_article ?r ?h (spider_of ?c) = (sp', items)"
      by (cases "parse_article ?r ?h (spider_of ?c)") auto
    have new: "\<forall>it \<in> set items.
         \<exists>t. date it = isoformat t \<and> start_dt (spider_of c) \<le> t \<and> t \<le> end_dt (spider_of c)"
    proof
      fix it assume "it \<in> set items"
      then have "it \<in> set (snd (parse_article ?r ?h (spider_of ?c)))" using p by simp
      from parse_article_items [OF this] sc
      show "\<exists>t. date it = isoformat t \<and> start_dt (spider_of c) \<le> t \<and> t \<le> end_dt (spider_of c)"
        by (auto simp add: make_item_def)
    qed
    show "\<forall>it \<in> set (feed (crawl_step ?c e)).
         \<exists>t. date it = isoformat t \<and> start_dt (spider_of c) \<le> t \<and> t \<le> end_dt (spider_of c)"
      using Article_arrives p ih new by auto
  qed
qed

subsection \<open>Requests and seen URLs\<close>

lemma dispatch_ok_nil: "dispatch_ok seen [] seen"
  by (simp add: dispatch_ok_def)

lemma dispatch_ok_append:
  "dispatch_ok s out1 s1 \<Longrightarrow> dispatch_ok s1 out2 s2 \<Longrightarrow> dispatch_ok s (out1 @ out2) s2"
  unfolding dispatch_ok_def by (simp add: Int_Un_distrib Un_assoc) blast

lemma anchor_body_seen_skip:
  "joined a |\<in>| seen_urls sp \<Longrightarrow> anchor_body a sp = (sp, [], Continue)"
  by (simp add: anchor_body_def Let_def)

lemma anchor_body_out:
  "fst (snd (anchor_body a sp)) = [] \<and> seen_urls (fst (anchor_body a sp)) = seen_urls sp
   \<or> joined a |\<notin>| seen_urls sp
     \<and> fst (snd (anchor_body a sp)) = [\<lparr>req_url = joined a, req_hint = archive_dt_str a\<rparr>]
     \<and> seen_urls (fst (anchor_body a sp)) = finsert (joined a) (seen_urls sp)"
  by (auto simp add: anchor_body_cases listing_instant_def is_candidate_def dispatch_def Let_def
      split: option.splits verdict.splits if_splits)

lemma anchor_body_dispatch_ok:
  "dispatch_ok (seen_urls sp) (fst (snd (anchor_body a sp))) (seen_urls (fst (anchor_body a sp)))"
proof -
  from anchor_body_out [of a sp] show ?thesis
  proof (elim disjE conjE)
    assume "fst (snd (anchor_body a sp)) = []"
      and "seen_urls (fst (anchor_body a sp)) = seen_urls sp"
    then show ?thesis by (simp add: dispatch_ok_def)
  next
    assume "joined a |\<notin>| seen_urls sp"
      and "fst (snd (anchor_body a sp)) = [\<lparr>req_url = joined a, req_hint = archive_dt_str a\<rparr>]"
      and "seen_urls (fst (anchor_body a sp)) = finsert (joined a) (seen_urls sp)"
    then show ?thesis by (simp add: dispatch_ok_def)
  qed
qed

lemma for_anchors_dispatch_ok:
  "dispatch_ok (seen_urls sp) (snd (for_anchors as sp)) (seen_urls (fst (for_anchors as sp)))"
proof (induction as arbitrary: sp)
  case Nil
  show ?case by (simp add: dispatch_ok_nil)
next
  case (Cons a as)
  obtain sp1 out fl where b: "anchor_body a sp = (sp1, out, fl)"
    by (cases "anchor_body a sp") auto
  have d1: "dispatch_ok (seen_urls sp) out (seen_urls sp1)"
    using anchor_body_dispatch_ok [of sp a] b by simp
  show ?case
  proof (cases fl)
    case Break
    then show ?thesis using b d1 by simp
  next
    case Continue
    obtain sp2 out2 where f: "for_anchors as sp1 = (sp2, out2)"
      by (cases "for_anchors as sp1") auto
    have "dispatch_ok (seen_urls sp1) out2 (seen_urls sp2)" using Cons.IH [of sp1] f by simp
    with d1 have "dispatch_ok (seen_urls sp) (out @ out2) (seen_urls sp2)"
      by (rule dispatch_ok_append)
    then show ?thesis using b f Continue by simp
  qed
qed

lemma scroll_loop_dispatch_ok:
  "dispatch_ok (seen_urls sp) (fst (snd (scroll_loop n pages sp)))
     (seen_urls (fst (scroll_loop n pages sp)))"
proof (induction pages arbitrary: n sp)
  case Nil
  show ?case by (simp add: dispatch_ok_nil)
next
  case (Cons p ps)
  obtain sp1 out where f: "for_anchors p sp = (sp1, out)"
    by (cases "for_anchors p sp") auto
  have d1: "dispatch_ok (seen_urls sp) out (seen_urls sp1)"
    using for_anchors_dispatch_ok [of sp p] f by simp
  obtain sp2 out2 rs k where l: "scroll_loop (n + 1) ps sp1 = (sp2, out2, rs, k)"
    by (cases "scroll_loop (n + 1) ps sp1") auto
  have "dispatch_ok (seen_urls sp1) out2 (seen_urls sp2)" using Cons.IH [of sp1 "n + 1"] l by simp
  with d1 have "dispatch_ok (seen_urls sp) (out @ out2) (seen_urls sp2)"
    by (rule dispatch_ok_append)
  then show ?case using f l d1 by (simp add: dispatch_ok_nil)
qed

lemma parse_article_seen_urls: "seen_urls (fst (parse_article r h sp)) = seen_urls sp"
  by (auto simp add: parse_article_cases split: option.splits verdict.splits)

lemma parse_article_links:
  "snd (parse_article r h sp) = [] \<or> (\<exists>t. snd (parse_article r h sp) = [make_item r t])"
  by (auto simp add: parse_article_cases split: option.splits verdict.splits)

lemma set_remove_nth: "set (remove_nth i xs) \<subseteq> set xs"
  by (auto simp add: remove_nth_def dest: in_set_takeD in_set_dropD)

lemma map_remove_nth: "map f (remove_nth i xs) = remove_nth i (map f xs)"
  by (simp add: remove_nth_def take_map drop_map)

lemma distinct_remove_nth: "distinct xs \<Longrightarrow> distinct (remove_nth i xs)"
proof -
  assume d: "distinct xs"
  have "distinct (take i xs @ drop i xs)" using d by simp
  then have "distinct (take i xs) \<and> distinct (drop i xs) \<and> set (take i xs) \<inter> set (drop i xs) = {}"
    by (simp only: distinct_append)
  moreover have "set (drop (Suc i) xs) \<subseteq> set (drop i xs)"
    by (simp add: set_drop_subset_set_drop)
  moreover have "distinct (drop (Suc i) xs)" using d by simp
  ultimately show ?thesis unfolding remove_nth_def by (auto simp del: append_take_drop_id)
qed

lemma nth_notin_remove_nth:
  "distinct xs \<Longrightarrow> i < length xs \<Longrightarrow> xs ! i \<notin> set (remove_nth i xs)"
proof -
  assume d: "distinct xs" and i: "i < length xs"
  have xs: "xs = take i xs @ xs ! i # drop (Suc i) xs" using i by (rule id_take_nth_drop)
  have "distinct (take i xs @ xs ! i # drop (Suc i) xs)" using d xs by simp
  then show ?thesis unfolding remove_nth_def by auto
qed

lemma urls_inv_dispatch:
  "urls_inv S R P F \<Longrightarrow> u |\<notin>| S \<Longrightarrow> urls_inv (finsert u S) (R @ [u]) (P @ [u]) F"
  unfolding urls_inv_def by auto

lemma urls_inv_drop:
  "urls_inv S R P F \<Longrightarrow> urls_inv S R (remove_nth i P) F"
  unfolding urls_inv_def using set_remove_nth [of i P] distinct_remove_nth [of P i] by auto

lemma urls_inv_answer:
  "urls_inv S R P F \<Longrightarrow> i < length P \<Longrightarrow> urls_inv S R (remove_nth i P) (F @ [P ! i])"
  unfolding urls_inv_def
  using set_remove_nth [of i P] distinct_remove_nth [of P i] nth_notin_remove_nth [of P i]
    nth_mem [of i P]
  by auto

lemma crawl_inv_init: "crawl_inv (init_crawl sp)"
  by (simp add: crawl_inv_def urls_inv_def init_crawl_def)

lemma crawl_step_inv: "crawl_inv c \<Longrightarrow> crawl_inv (crawl_step c e)"
proof (cases e)
  case (Listing_anchor a)
  assume inv: "crawl_inv c"
  obtain sp' out fl where b: "anchor_body a (spider_of c) = (sp', out, fl)"
    by (cases "anchor_body a (spider_of c)") auto
  have st: "crawl_step c e = c\<lparr>spider_of := sp', pending := pending c @ out,
      requested := requested c @ out\<rparr>"
    using Listing_anchor b by simp
  from anchor_body_out [of a "spider_of c"] b
  consider (none) "out = []" "seen_urls sp' = seen_urls (spider_of c)"
    | (one) "joined a |\<notin>| seen_urls (spider_of c)"
        "out = [\<lparr>req_url = joined a, req_hint = archive_dt_str a\<rparr>]"
        "seen_urls sp' = finsert (joined a) (seen_urls (spider_of c))"
    by auto
  then show ?thesis
  proof cases
    case none
    then show ?thesis using inv st by (simp add: crawl_inv_def)
  next
    case one
    show ?thesis using urls_inv_dispatch [OF inv [unfolded crawl_inv_def] one(1)] st one
      by (simp add: crawl_inv_def)
  qed
next
  case (Fetch_fails i)
  assume inv: "crawl_inv c"
  show ?thesis using urls_inv_drop [OF inv [unfolded crawl_inv_def], of i] Fetch_fails
    by (simp add: crawl_inv_def map_remove_nth)
next
  case (Article_arrives i r)
  assume inv: "crawl_inv c"
  show ?thesis
  proof (cases "i < length (pending c)")
    case False
    then show ?thesis using inv Article_arrives by simp
  next
    case True
    let ?q = "pending c ! i"
    let ?r = "r\<lparr>resp_url := req_url ?q\<rparr>"
    obtain sp' items where p: "parse_article ?r (req_hint ?q) (spider_of c) = (sp', items)"
      by (cases "parse_article ?r (req_hint ?q) (spider_of c)") auto
    have st: "crawl_step c e = c\<lparr>spider_of := sp', pending := remove_nth i (pending c),
        feed := feed c @ items\<rparr>"
      using Article_arrives True p by simp
    have seen: "seen_urls sp' = seen_urls (spider_of c)"
      using parse_article_seen_urls [of ?r "req_hint ?q" "spider_of c"] p by simp
    have nth: "map req_url (pending c) ! i = req_url ?q" using True by simp
    have links: "map link items = [] \<or> map link items = [req_url ?q]"
      using parse_article_links [of ?r "req_hint ?q" "spider_of c"] p
      by (auto simp add: make_item_def)
    then show ?thesis
    proof
      assume "map link items = []"
      then show ?thesis
        using urls_inv_drop [OF inv [unfolded crawl_inv_def], of i] st seen
        by (simp add: crawl_inv_def map_remove_nth)
    next
      assume "map link items = [req_url ?q]"
      then show ?thesis
        using urls_inv_answer [OF inv [unfolded crawl_inv_def], of i] True st seen nth
        by (simp add: crawl_inv_def map_remove_nth)
    qed
  qed
qed

lemma crawl_run_inv: "crawl_inv c \<Longrightarrow> crawl_inv (crawl_run evs c)"
proof (induction evs rule: rev_induct)
  case Nil
  then show ?case by (simp add: crawl_run_def)
next
  case (snoc e evs)
  then show ?case unfolding crawl_run_snoc by (simp add: crawl_step_inv)
qed

subsection \<open>A round of qualifying candidates under \<open>max_urls\<close>\<close>

lemma qualifies_same_config: "same_config sp sp' \<Longrightarrow> qualifies sp' a = qualifies sp a"
  by (auto simp add: qualifies_def same_config_def classify_def split: option.splits)

lemma max_urls_hit_iff:
  "max_urls sp = Some m \<Longrightarrow> max_urls_hit sp = (m \<le> int (fcard (seen_urls sp)))"
  by (simp add: max_urls_hit_def)

lemma anchor_body_qualifies:
  assumes q: "qualifies sp a" and fresh: "joined a |\<notin>| seen_urls sp"
  shows "fst (snd (anchor_body a sp)) = [\<lparr>req_url = joined a, req_hint = archive_dt_str a\<rparr>]
     \<and> seen_urls (fst (anchor_body a sp)) = finsert (joined a) (seen_urls sp)
     \<and> same_config sp (fst (anchor_body a sp))
     \<and> stop_requested (fst (anchor_body a sp)) = stop_requested sp
     \<and> snd (snd (anchor_body a sp))
         = (if max_urls_hit (fst (anchor_body a sp)) then Break else Continue)"
proof -
  have c: "is_candidate a sp" using q fresh by (simp add: qualifies_def is_candidate_def)
  show ?thesis
  proof (cases "parse_datetime (archive_dt_str a)")
    case None
    then have "anchor_body a sp = dispatch (joined a) (archive_dt_str a) sp"
      using c by (simp add: anchor_body_cases listing_instant_def)
    then show ?thesis by (simp add: dispatch_def Let_def same_config_def)
  next
    case (Some t)
    then have "classify sp t = IN_WINDOW" using q by (simp add: qualifies_def)
    then have "anchor_body a sp = dispatch (joined a) (archive_dt_str a)
        (sp\<lparr>seen_recent_article := True, old_count_streak := 0\<rparr>)"
      using c Some by (simp add: anchor_body_cases listing_instant_def)
    then show ?thesis by (simp add: dispatch_def Let_def same_config_def)
  qed
qed

lemma fcard_finsert_fresh: "u |\<notin>| S \<Longrightarrow> fcard (finsert u S) = Suc (fcard S)"
  by (simp add: fcard_finsert_disjoint)

lemma for_anchors_qualifying:
  assumes "\<forall>a \<in> set as. qualifies sp a" and "distinct (map joined as)"
    and "\<forall>a \<in> set as. joined a |\<notin>| seen_urls sp"
    and "max_urls sp = Some m" and "int (fcard (seen_urls sp)) < m"
  shows "map req_url (snd (for_anchors as sp))
           = map joined (take (nat (m - int (fcard (seen_urls sp)))) as)
     \<and> map req_hint (snd (for_anchors as sp))
           = map archive_dt_str (take (nat (m - int (fcard (seen_urls sp)))) as)
     \<and> fset (seen_urls (fst (for_anchors as sp)))
           = fset (seen_urls sp) \<union> set (map joined (take (nat (m - int (fcard (seen_urls sp)))) as))
     \<and> same_config sp (fst (for_anchors as sp))
     \<and> stop_requested (fst (for_anchors as sp)) = stop_requested sp"
  using assms
proof (induction as arbitrary: sp)
  case Nil
  show ?case by (simp add: same_config_refl)
next
  case (Cons a as)
  let ?k = "nat (m - int (fcard (seen_urls sp)))"
  obtain sp1 out fl where b: "anchor_body a sp = (sp1, out, fl)"
    by (cases "anchor_body a sp") auto
  have qa: "qualifies sp a" and fa: "joined a |\<notin>| seen_urls sp"
    using Cons.prems by simp_all
  from anchor_body_qualifies [OF qa fa] b
  have out: "out = [\<lparr>req_url = joined a, req_hint = archive_dt_str a\<rparr>]"
    and seen1: "seen_urls sp1 = finsert (joined a) (seen_urls sp)"
    and cfg1: "same_config sp sp1"
    and stop1: "stop_requested sp1 = stop_requested sp"
    and fl: "fl = (if max_urls_hit sp1 then Break else Continue)"
    by simp_all
  have card1: "fcard (seen_urls sp1) = Suc (fcard (seen_urls sp))"
    using seen1 fa by (simp add: fcard_finsert_fresh)
  have m1: "max_urls sp1 = Some m" using cfg1 Cons.prems(4) by (simp add: same_config_def)
  have kpos: "?k = Suc (nat (m - int (fcard (seen_urls sp1))))"
    using card1 Cons.prems(5) by simp
  show ?case
  proof (cases "max_urls_hit sp1")
    case True
    then have "m \<le> int (fcard (seen_urls sp1))" using m1 by (simp add: max_urls_hit_iff)
    then have k1: "?k = Suc 0" using card1 Cons.prems(5) by simp
    have "for_anchors (a # as) sp = (sp1, out)" using b fl True by simp
    then show ?thesis using out seen1 cfg1 stop1 k1 by simp
  next
    case False
    then have lt: "int (fcard (seen_urls sp1)) < m" using m1 by (simp add: max_urls_hit_iff)
    obtain sp2 out2 where f: "for_anchors as sp1 = (sp2, out2)"
      by (cases "for_anchors as sp1") auto
    have p1: "\<forall>x \<in> set as. qualifies sp1 x"
      using Cons.prems(1) cfg1 by (simp add: qualifies_same_config)
    have p2: "distinct (map joined as)" using Cons.prems(2) by simp
    have p3: "\<forall>x \<in> set as. joined x |\<notin>| seen_urls sp1"
    proof
      fix x assume x: "x \<in> set as"
      then have "joined x \<in> set (map joined as)" by simp
      moreover have "joined a \<notin> set (map joined as)" using Cons.prems(2) by simp
      ultimately have "joined x \<noteq> joined a" by metis
      moreover have "joined x |\<notin>| seen_urls sp" using Cons.prems(3) x by simp
      ultimately show "joined x |\<notin>| seen_urls sp1" using seen1 by simp
    qed
    from Cons.IH [OF p1 p2 p3 m1 lt] f
    have ih: "map req_url out2 = map joined (take (nat (m - int (fcard (seen_urls sp1)))) as)"
      "map req_hint out2 = map archive_dt_str (take (nat (m - int (fcard (seen_urls sp1)))) as)"
      "fset (seen_urls sp2) = fset (seen_urls sp1)
          \<union> set (map joined (take (nat (m - int (fcard (seen_urls sp1)))) as))"
      "same_config sp1 sp2" "stop_requested sp2 = stop_requested sp1"
      by simp_all
    have r: "for_anchors (a # as) sp = (sp2, out @ out2)" using b fl False f by simp
    have cfg2: "same_config sp sp2" using cfg1 ih(4) by (rule same_config_trans)
    show ?thesis unfolding r kpos using out ih seen1 cfg2 stop1 by simp
  qed
qed

lemma fcard_union_list:
  "distinct us \<Longrightarrow> set us \<inter> fset S = {} \<Longrightarrow> fset S' = fset S \<union> set us
     \<Longrightarrow> fcard S' = fcard S + length us"
proof -
  assume d: "distinct us" and i: "set us \<inter> fset S = {}" and e: "fset S' = fset S \<union> set us"
  have "card (fset S \<union> set us) = card (fset S) + card (set us)"
    using i by (intro card_Un_disjoint) auto
  then show ?thesis using d e by (simp add: fcard.rep_eq distinct_card)
qed

lemma parse_archive_max_urls:
  assumes q: "\<forall>a \<in> set as. qualifies sp a" and d: "distinct (map joined as)"
    and fr: "\<forall>a \<in> set as. joined a |\<notin>| seen_urls sp"
    and m: "max_urls sp = Some m" and lt: "int (fcard (seen_urls sp)) < m"
    and enough: "m \<le> int (fcard (seen_urls sp)) + int (length as)"
    and go: "\<not> stop_requested sp" "\<not> max_scroll_hit sp 0"
  shows "map req_url (fst (snd (parse_archive (as # later) sp)))
           = map joined (take (nat (m - int (fcard (seen_urls sp)))) as)
     \<and> fset (seen_urls (fst (parse_archive (as # later) sp)))
           = fset (seen_urls sp) \<union> set (map joined (take (nat (m - int (fcard (seen_urls sp)))) as))
     \<and> int (fcard (seen_urls (fst (parse_archive (as # later) sp)))) = m
     \<and> snd (snd (parse_archive (as # later) sp)) = (Hit_max_urls, 1)"
proof -
  let ?k = "nat (m - int (fcard (seen_urls sp)))"
  obtain sp1 out where f: "for_anchors as sp = (sp1, out)"
    by (cases "for_anchors as sp") auto
  from for_anchors_qualifying [OF q d fr m lt] f
  have o: "map req_url out = map joined (take ?k as)"
    and s: "fset (seen_urls sp1) = fset (seen_urls sp) \<union> set (map joined (take ?k as))"
    and c: "same_config sp sp1"
    by simp_all
  have len: "length (take ?k as) = ?k" using enough lt by simp
  have d': "distinct (map joined (take ?k as))" using d by (simp add: distinct_take take_map [symmetric])
  have i': "set (map joined (take ?k as)) \<inter> fset (seen_urls sp) = {}"
    using fr by (auto dest: in_set_takeD)
  have card: "fcard (seen_urls sp1) = fcard (seen_urls sp) + ?k"
    using fcard_union_list [OF d' i' s] len by simp
  then have cm: "int (fcard (seen_urls sp1)) = m" using lt by simp
  have m1: "max_urls sp1 = Some m" using c m by (simp add: same_config_def)
  have hit: "max_urls_hit sp1" using cm m1 by (simp add: max_urls_hit_iff)
  have "parse_archive (as # later) sp = (sp1, out, Hit_max_urls, 1)"
    using go f hit by (simp add: parse_archive_def)
  then show ?thesis using o s cm by simp
qed

section \<open>Name resolution\<close>

lemma strip_or_none_nonempty: "strip_or_none v \<noteq> Some []"
  by (simp add: strip_or_none_def)

lemma name_of_dict_nonempty: "name_of_dict kvs \<noteq> Some []"
  by (auto simp add: name_of_dict_def split: option.splits json.splits)

lemma join_comma_nonempty: "ns \<noteq> [] \<Longrightarrow> \<forall>n \<in> set ns. n \<noteq> [] \<Longrightarrow> join_comma ns \<noteq> []"
  by (induction ns rule: join_comma.induct) auto

lemma person_nonempty:
  "extract_person_name x \<noteq> Some []" and "\<forall>n \<in> set (person_names xs). n \<noteq> []"
proof (induction x and xs rule: extract_person_name_person_names.induct)
  case (3 items)
  then show ?case by (simp add: Let_def join_comma_nonempty)
qed (auto simp add: strip_or_none_nonempty name_of_dict_nonempty split: option.splits)

lemma org_nonempty:
  "extract_org_name x \<noteq> Some []" and "first_org_name xs \<noteq> Some []"
  by (induction x and xs rule: extract_org_name_first_org_name.induct)
    (auto simp add: strip_or_none_nonempty name_of_dict_nonempty split: option.splits)

lemma person_names_map_filter:
  "person_names xs = List.map_filter extract_person_name xs"
proof (induction xs)
  case Nil
  show ?case by (simp add: List.map_filter_simps)
next
  case (Cons x xs)
  show ?case
  proof (cases "extract_person_name x")
    case None
    then show ?thesis using Cons by (simp add: List.map_filter_simps)
  next
    case (Some n)
    then have "n \<noteq> []" using person_nonempty(1) [of x] by auto
    then show ?thesis using Some Cons by (simp add: List.map_filter_simps)
  qed
qed

lemma first_org_name_map_filter:
  "first_org_name xs =
     (case List.map_filter extract_org_name xs of [] \<Rightarrow> None | n # ns \<Rightarrow> Some n)"
proof (induction xs)
  case Nil
  show ?case by (simp add: List.map_filter_simps)
next
  case (Cons x xs)
  show ?case
  proof (cases "extract_org_name x")
    case None
    then show ?thesis using Cons by (simp add: List.map_filter_simps)
  next
    case (Some n)
    then have "n \<noteq> []" using org_nonempty(1) [of x] by auto
    then show ?thesis using Some by (simp add: List.map_filter_simps)
  qed
qed

lemma strip_id:
  "v \<noteq> [] \<Longrightarrow> \<not> py_isspace (hd v) \<Longrightarrow> \<not> py_isspace (last v) \<Longrightarrow> strip v = v"
proof -
  assume v: "v \<noteq> []" and h: "\<not> py_isspace (hd v)" and l: "\<not> py_isspace (last v)"
  have a: "dropWhile py_isspace v = v" using v h by (cases v) simp_all
  obtain c cs where r: "rev v = c # cs" using v by (cases "rev v") simp_all
  have "hd (rev v) = last v" using v by (simp add: hd_rev)
  then have "\<not> py_isspace c" using l r by simp
  then have b: "dropWhile py_isspace (rev v) = rev v" by (simp add: r)
  show ?thesis by (simp add: strip_def a b)
qed

section \<open>Sorting the output\<close>

text \<open>Sorting the numbered rows by date key and number is the stable sort by date key.\<close>

lemma insort_key_pair:
  fixes k :: "'a \<Rightarrow> int"
  assumes "\<forall>p \<in> set ps. n < fst p"
  shows "map snd (insort_key (\<lambda>pair. (k (snd pair), fst pair)) (n, x) ps)
           = insort_key k x (map snd ps)"
  using assms
proof (induction ps)
  case Nil
  show ?case by simp
next
  case (Cons p ps)
  have lt: "n < fst p" using Cons.prems by simp
  have "((k x, n) \<le> (k (snd p), fst p)) = (k x \<le> k (snd p))"
    using lt by (auto simp add: less_eq_prod_def)
  then show ?case using Cons by simp
qed

lemma fst_enumerate_ge: "p \<in> set (enumerate n xs) \<Longrightarrow> n \<le> fst p"
  by (auto simp add: in_set_enumerate_eq)

lemma sort_enumerate_stable:
  fixes k :: "'a \<Rightarrow> int"
  shows "map snd (sort_key (\<lambda>pair. (k (snd pair), fst pair)) (enumerate n xs)) = sort_key k xs"
proof (induction xs arbitrary: n)
  case Nil
  show ?case by simp
next
  case (Cons x xs)
  let ?K = "\<lambda>pair. (k (snd pair), fst pair)"
  have "\<forall>p \<in> set (sort_key ?K (enumerate (Suc n) xs)). n < fst p"
  proof
    fix p assume "p \<in> set (sort_key ?K (enumerate (Suc n) xs))"
    then have "p \<in> set (enumerate (Suc n) xs)" by simp
    then have "Suc n \<le> fst p" by (rule fst_enumerate_ge)
    then show "n < fst p" by simp
  qed
  then have "map snd (insort_key ?K (n, x) (sort_key ?K (enumerate (Suc n) xs)))
      = insort_key k x (map snd (sort_key ?K (enumerate (Suc n) xs)))"
    by (rule insort_key_pair)
  then show ?case using Cons [of "Suc n"] by simp
qed

lemma sort_rows_stable: "sort_rows rows = sort_key date_key rows"
  unfolding sort_rows_def by (rule sort_enumerate_stable)

lemma sort_rows_sorted: "sorted (map date_key (sort_rows rows))"
  by (simp add: sort_rows_stable)

lemma sort_rows_id: "sorted (map date_key rows) \<Longrightarrow> sort_rows rows = rows"
  by (simp add: sort_rows_stable sort_key_id_if_sorted)

lemma sort_rows_idem: "sort_rows (sort_rows rows) = sort_rows rows"
  using sort_rows_sorted by (rule sort_rows_id)

lemma sort_rows_length: "length (sort_rows rows) = length rows"
  by (simp add: sort_rows_stable)

lemma sort_output_idem:
  "sort_output_csv_by_date (sort_output_csv_by_date csv) = sort_output_csv_by_date csv"
proof (cases csv)
  case None
  then show ?thesis by (simp add: sort_output_csv_by_date_def)
next
  case (Some f)
  obtain fieldnames rows where f: "f = (fieldnames, rows)" by (cases f)
  have "sort_rows rows = [] \<longleftrightarrow> rows = []"
    using sort_rows_length [of rows] by (metis length_0_conv)
  then show ?thesis using Some f
    by (simp add: sort_output_csv_by_date_def sort_rows_idem)
qed

section \<open>The date of an article\<close>

lemma parse_datetime_falsy: "\<not> truthy s \<Longrightarrow> parse_datetime s = None"
  by (cases s) (simp_all add: parse_datetime_def)

lemma first_parsing_Nil: "first_parsing [] = None"
  by (simp add: first_parsing_def List.map_filter_simps)

lemma first_parsing_Cons:
  "first_parsing (s # srcs) = (case parse_datetime s of Some t \<Rightarrow> Some t | None \<Rightarrow> first_parsing srcs)"
  by (simp add: first_parsing_def List.map_filter_simps split: option.splits)

lemma page_dt_str_first_present:
  "parse_datetime (page_dt_str r) = parse_datetime (first_present (page_sources r))"
  by (auto simp add: page_dt_str_def page_sources_def first_present_def py_or_def
      parse_datetime_falsy)

lemma resolve_pub_dt_first_present:
  "resolve_pub_dt r h = first_parsing [first_present (page_sources r), h]"
  by (simp add: resolve_pub_dt_def page_dt_str_first_present first_parsing_Cons first_parsing_Nil
      split: option.splits)

lemma first_parsing_page_sources:
  assumes "parse_datetime (first_present (page_sources r)) \<noteq> None
           \<or> filter truthy (page_sources r) = []"
  shows "first_parsing (page_sources r @ [h]) = first_parsing [first_present (page_sources r), h]"
proof -
  let ?a = "time_datetime r" and ?b = "meta_published_time r" and ?c = "meta_pubdate r"
  show ?thesis
  proof (cases "truthy ?a")
    case True
    then have "first_present (page_sources r) = ?a"
      by (simp add: page_sources_def first_present_def)
    then show ?thesis using assms True
      by (auto simp add: page_sources_def first_parsing_Cons split: option.splits)
  next
    case na: False
    show ?thesis
    proof (cases "truthy ?b")
      case True
      then have "first_present (page_sources r) = ?b" using na
        by (simp add: page_sources_def first_present_def)
      then show ?thesis using assms True na
        by (auto simp add: page_sources_def first_parsing_Cons parse_datetime_falsy
            split: option.splits)
    next
      case nb: False
      show ?thesis
      proof (cases "truthy ?c")
        case True
        then have "first_present (page_sources r) = ?c" using na nb
          by (simp add: page_sources_def first_present_def)
        then show ?thesis using assms True na nb
          by (auto simp add: page_sources_def first_parsing_Cons parse_datetime_falsy
              split: option.splits)
      next
        case False
        then have "first_present (page_sources r) = None" using na nb
          by (simp add: page_sources_def first_present_def)
        then show ?thesis using False na nb
          by (simp add: page_sources_def first_parsing_Cons first_parsing_Nil parse_datetime_falsy)
      qed
    qed
  qed
qed

lemma first_parsing_None_iff:
  "first_parsing srcs = None \<longleftrightarrow> (\<forall>s \<in> set srcs. parse_datetime s = None)"
  by (induction srcs) (auto simp add: first_parsing_Nil first_parsing_Cons split: option.splits)

lemma first_present_mem:
  "first_present srcs = None \<or> first_present srcs \<in> set srcs"
  by (induction srcs) (auto simp add: first_present_def)

lemma resolve_None_if_all_fail:
  assumes "first_parsing (page_sources r @ [h]) = None"
  shows "resolve_pub_dt r h = None"
proof -
  have all: "\<forall>s \<in> set (page_sources r @ [h]). parse_datetime s = None"
    using assms by (simp only: first_parsing_None_iff)
  have "parse_datetime (first_present (page_sources r)) = None"
    using first_present_mem [of "page_sources r"] all
    by (auto simp add: parse_datetime_falsy)
  moreover have "parse_datetime h = None" using all by simp
  ultimately show ?thesis
    by (simp add: resolve_pub_dt_first_present first_parsing_Cons first_parsing_Nil)
qed

section \<open>The calendar: from ordinal to date and back\<close>

lemma div_mod_unique_int:
  fixes q r b :: int
  assumes "0 \<le> r" "r < b"
  shows "(q * b + r) div b = q" and "(q * b + r) mod b = r"
  using assms by simp_all

lemma mod_zero_top:
  fixes q r k :: int
  assumes "0 < r" "r \<le> k"
  shows "((q * k + r) mod k = 0) = (r = k)"
proof (cases "r = k")
  case True
  then show ?thesis by simp
next
  case False
  then have "r < k" using assms by simp
  then have "(q * k + r) mod k = r" using assms by simp
  then show ?thesis using assms False by simp
qed

lemma year_decomp:
  fixes Y :: int
  assumes "0 \<le> Y"
  obtains a b c e where "Y = 400 * a + 100 * b + 4 * c + e"
    "0 \<le> a" "0 \<le> b" "b \<le> 3" "0 \<le> c" "c \<le> 24" "0 \<le> e" "e \<le> 3"
proof -
  define a where "a = Y div 400"
  define R where "R = Y mod 400"
  define b where "b = R div 100"
  define R2 where "R2 = R mod 100"
  define c where "c = R2 div 4"
  define e where "e = R2 mod 4"
  have Y: "Y = 400 * a + R" unfolding a_def R_def by simp
  have R: "R = 100 * b + R2" unfolding b_def R2_def by simp
  have R2: "R2 = 4 * c + e" unfolding c_def e_def by simp
  have Rb: "0 \<le> R" "R < 400" unfolding R_def by simp_all
  have R2b: "0 \<le> R2" "R2 < 100" unfolding R2_def by simp_all
  have eb: "0 \<le> e" "e < 4" unfolding e_def by simp_all
  have a0: "0 \<le> a" unfolding a_def using assms by simp
  have b0: "0 \<le> b" unfolding b_def using Rb by simp
  have c0: "0 \<le> c" unfolding c_def using R2b by simp
  have b3: "b \<le> 3" using R Rb R2b by linarith
  have c24: "c \<le> 24" using R2 R2b eb by linarith
  have "Y = 400 * a + 100 * b + 4 * c + e" using Y R R2 by simp
  then show ?thesis using that a0 b0 b3 c0 c24 eb by simp
qed

lemma days_before_year_decomp:
  fixes a b c e :: int
  assumes "0 \<le> a" "0 \<le> b" "b \<le> 3" "0 \<le> c" "c \<le> 24" "0 \<le> e" "e \<le> 3"
  shows "days_before_year (400 * a + 100 * b + 4 * c + e + 1)
           = 146097 * a + 36524 * b + 1461 * c + 365 * e"
proof -
  let ?Y = "400 * a + 100 * b + 4 * c + e"
  have e4: "?Y = (100 * a + 25 * b + c) * 4 + e" by simp
  have d4: "?Y div 4 = 100 * a + 25 * b + c"
    unfolding e4 using assms by (intro div_mod_unique_int(1)) simp_all
  have e100: "?Y = (4 * a + b) * 100 + (4 * c + e)" by simp
  have d100: "?Y div 100 = 4 * a + b"
    unfolding e100 using assms by (intro div_mod_unique_int(1)) simp_all
  have e400: "?Y = a * 400 + (100 * b + 4 * c + e)" by simp
  have d400: "?Y div 400 = a"
    unfolding e400 using assms by (intro div_mod_unique_int(1)) simp_all
  show ?thesis unfolding days_before_year_def Let_def using d4 d100 d400 by simp
qed

lemma is_leap_decomp:
  fixes a b c e :: int
  assumes "0 \<le> a" "0 \<le> b" "b \<le> 3" "0 \<le> c" "c \<le> 24" "0 \<le> e" "e \<le> 3"
  shows "is_leap (400 * a + 100 * b + 4 * c + e + 1) = (e = 3 \<and> (c \<noteq> 24 \<or> b = 3))"
proof -
  let ?y = "400 * a + 100 * b + 4 * c + e + 1"
  have e4: "?y = (100 * a + 25 * b + c) * 4 + (e + 1)" by simp
  have m4: "(?y mod 4 = 0) = (e = 3)"
    unfolding e4 using assms mod_zero_top [of "e + 1" 4 "100 * a + 25 * b + c"] by simp
  have e100: "?y = (4 * a + b) * 100 + (4 * c + e + 1)" by simp
  have m100: "(?y mod 100 = 0) = (4 * c + e + 1 = 100)"
    unfolding e100 using assms mod_zero_top [of "4 * c + e + 1" 100 "4 * a + b"] by simp
  have e400: "?y = a * 400 + (100 * b + 4 * c + e + 1)" by simp
  have m400: "(?y mod 400 = 0) = (100 * b + 4 * c + e + 1 = 400)"
    unfolding e400 using assms mod_zero_top [of "100 * b + 4 * c + e + 1" 400 a] by simp
  have c100: "(4 * c + e + 1 = 100) = (c = 24 \<and> e = 3)" using assms by linarith
  have c400: "(100 * b + 4 * c + e + 1 = 400) = (b = 3 \<and> c = 24 \<and> e = 3)" using assms by linarith
  show ?thesis unfolding is_leap_def m4 m100 m400 c100 c400 by blast
qed

lemma month_cases:
  fixes m :: int
  assumes "1 \<le> m" "m \<le> 12"
  shows "m = 1 \<or> m = 2 \<or> m = 3 \<or> m = 4 \<or> m = 5 \<or> m = 6
     \<or> m = 7 \<or> m = 8 \<or> m = 9 \<or> m = 10 \<or> m = 11 \<or> m = 12"
  using assms by arith

lemma div32:
  fixes t q :: int
  assumes "32 * q \<le> t" "t < 32 * q + 32"
  shows "t div 32 = q"
proof -
  have "t = q * 32 + (t - 32 * q)" by simp
  moreover have "(q * 32 + (t - 32 * q)) div 32 = q"
    using assms by (intro div_mod_unique_int(1)) simp_all
  ultimately show ?thesis by simp
qed

lemma month_and_day_generic:
  assumes d: "1 \<le> d" "d \<le> month_len m L"
    and nxt: "m < 12 \<Longrightarrow> month_start (m + 1) L = month_start m L + month_len m L"
    and lo: "32 * m \<le> month_start m L + 50"
    and hi: "month_start m L + month_len m L + 49 < 32 * (m + 2)"
    and hi12: "m = 12 \<Longrightarrow> month_start m L + month_len m L + 49 < 32 * 13"
    and m12: "m \<le> 12"
  shows "month_and_day y L (month_start m L + d - 1) = (y, m, d)"
proof (cases "month_start m L + d + 49 < 32 * m + 32")
  case True
  have q: "(month_start m L + d - 1 + 50) div 32 = m"
    using True lo d by (intro div32) simp_all
  show ?thesis
    unfolding month_and_day_def Let_def q
    using d by (simp add: month_start_def)
next
  case False
  then have ne: "m \<noteq> 12" using hi12 d by auto
  then have lt: "m < 12" using m12 by simp
  have q: "(month_start m L + d - 1 + 50) div 32 = m + 1"
    using False hi d by (intro div32) simp_all
  have p: "days_before_month_tab (m + 1) + (if m + 1 > 2 \<and> L then 1 else 0)
      = month_start m L + month_len m L"
    using nxt [OF lt] by (simp add: month_start_def)
  have gt: "month_start m L + month_len m L > month_start m L + d - 1" using d by simp
  show ?thesis
    unfolding month_and_day_def Let_def q p
    using gt by (simp add: month_len_def)
qed

lemma month_start_eq: "month_start m (is_leap y) = days_before_month y m"
  by (simp add: month_start_def days_before_month_def)

lemma month_len_eq: "1 \<le> m \<Longrightarrow> m \<le> 12 \<Longrightarrow> month_len m (is_leap y) = days_in_month y m"
  by (auto simp add: month_len_def days_in_month_def)

lemma month_and_day_correct:
  assumes m: "1 \<le> m" "m \<le> 12" and d: "1 \<le> d" "d \<le> days_in_month y m"
  shows "month_and_day y (is_leap y) (days_before_month y m + d - 1) = (y, m, d)"
proof -
  let ?L = "is_leap y"
  have d': "d \<le> month_len m ?L" using d m by (simp add: month_len_eq)
  have side: "(m < 12 \<longrightarrow> month_start (m + 1) ?L = month_start m ?L + month_len m ?L)
     \<and> 32 * m \<le> month_start m ?L + 50
     \<and> month_start m ?L + month_len m ?L + 49 < 32 * (m + 2)
     \<and> (m = 12 \<longrightarrow> month_start m ?L + month_len m ?L + 49 < 32 * 13)"
    using month_cases [OF m]
    by (elim disjE) (simp_all add: month_start_def month_len_def days_before_month_tab_def)
  have "month_and_day y ?L (month_start m ?L + d - 1) = (y, m, d)"
    using d(1) d' side m(2) by (intro month_and_day_generic) simp_all
  then show ?thesis by (simp add: month_start_eq)
qed

lemma day_of_year_bound:
  assumes m: "1 \<le> m" "m \<le> 12" and d: "1 \<le> d" "d \<le> days_in_month y m"
  shows "0 \<le> days_before_month y m + d - 1
     \<and> days_before_month y m + d - 1 \<le> 364 + (if is_leap y then 1 else 0)
     \<and> (days_before_month y m + d - 1 = 365 \<longrightarrow> m = 12 \<and> d = 31)"
  using month_cases [OF m] d
  by (elim disjE)
    (simp_all add: days_before_month_def days_before_month_tab_def days_in_month_def
      split: if_splits)

lemma ord2ymd_core:
  fixes a b c e t :: int
  assumes "0 \<le> a" "0 \<le> b" "b \<le> 3" "0 \<le> c" "c \<le> 24" "0 \<le> e" "e \<le> 3"
    and t: "0 \<le> t" "t \<le> 364"
  shows "ord2ymd (146097 * a + 36524 * b + 1461 * c + 365 * e + t + 1)
           = month_and_day (400 * a + 100 * b + 4 * c + e + 1) (e = 3 \<and> (c \<noteq> 24 \<or> b = 3)) t"
proof -
  define R3 where "R3 = e * 365 + t"
  define R2 where "R2 = c * 1461 + R3"
  define R1 where "R1 = b * 36524 + R2"
  define N where "N = a * 146097 + R1"
  have r3: "0 \<le> R3" "R3 \<le> 1459" unfolding R3_def using assms by simp_all
  have r2: "0 \<le> R2" "R2 \<le> 36523" unfolding R2_def using assms r3 by simp_all
  have r1: "0 \<le> R1" "R1 \<le> 146095" unfolding R1_def using assms r2 by simp_all
  have f1: "N div 146097 = a" "N mod 146097 = R1"
    unfolding N_def using r1 by (simp_all add: div_mod_unique_int)
  have f2: "R1 div 36524 = b" "R1 mod 36524 = R2"
    unfolding R1_def using r2 by (simp_all add: div_mod_unique_int)
  have f3: "R2 div 1461 = c" "R2 mod 1461 = R3"
    unfolding R2_def using r3 by (simp_all add: div_mod_unique_int)
  have f4: "R3 div 365 = e" "R3 mod 365 = t"
    unfolding R3_def using t by (simp_all add: div_mod_unique_int)
  have N: "146097 * a + 36524 * b + 1461 * c + 365 * e + t + 1 = N + 1"
    unfolding N_def R1_def R2_def R3_def by simp
  have ne: "e \<noteq> 4" "b \<noteq> 4" using assms by simp_all
  have yr: "a * 400 + 1 + b * 100 + c * 4 + e = 400 * a + 100 * b + 4 * c + e + 1" by simp
  show ?thesis
    unfolding N ord2ymd_def Let_def
    by (simp only: add_diff_cancel_right' f1 f2 f3 f4 ne yr simp_thms if_False)
qed

lemma ord2ymd_last_day:
  fixes a b c e :: int
  assumes "0 \<le> a" "0 \<le> b" "b \<le> 3" "0 \<le> c" "c \<le> 24" "0 \<le> e" "e \<le> 3"
    and leap: "e = 3 \<and> (c \<noteq> 24 \<or> b = 3)"
  shows "ord2ymd (146097 * a + 36524 * b + 1461 * c + 365 * e + 365 + 1)
           = (400 * a + 100 * b + 4 * c + e + 1, 12, 31)"
proof (cases "c = 24")
  case True
  then have b: "b = 3" and e: "e = 3" using leap by simp_all
  define N where "N = a * 146097 + (146096 :: int)"
  have f1: "N div 146097 = a" "N mod 146097 = 146096"
    unfolding N_def by (simp_all add: div_mod_unique_int)
  have N: "146097 * a + 36524 * b + 1461 * c + 365 * e + 365 + 1 = N + 1"
    unfolding N_def using True b e by simp
  show ?thesis
    unfolding N ord2ymd_def Let_def
    by (simp add: f1 True b e)
next
  case False
  then have c: "c \<le> 23" using assms by simp
  have e: "e = 3" using leap by simp
  define R2 where "R2 = c * 1461 + (1460 :: int)"
  define R1 where "R1 = b * 36524 + R2"
  define N where "N = a * 146097 + R1"
  have r2: "0 \<le> R2" "R2 \<le> 35063" unfolding R2_def using assms c by simp_all
  have r1: "0 \<le> R1" "R1 \<le> 144635" unfolding R1_def using assms r2 by simp_all
  have f1: "N div 146097 = a" "N mod 146097 = R1"
    unfolding N_def using r1 by (simp_all add: div_mod_unique_int)
  have f2: "R1 div 36524 = b" "R1 mod 36524 = R2"
    unfolding R1_def using r2 by (simp_all add: div_mod_unique_int)
  have f3: "R2 div 1461 = c" "R2 mod 1461 = 1460"
    unfolding R2_def by (simp_all add: div_mod_unique_int)
  have N: "146097 * a + 36524 * b + 1461 * c + 365 * e + 365 + 1 = N + 1"
    unfolding N_def R1_def R2_def using e by simp
  show ?thesis
    unfolding N ord2ymd_def Let_def
    by (simp add: f1 f2 f3 e)
qed

lemma ord2ymd_ymd2ord:
  assumes y: "1 \<le> y" and m: "1 \<le> m" "m \<le> 12" and d: "1 \<le> d" "d \<le> days_in_month y m"
  shows "ord2ymd (ymd2ord y m d) = (y, m, d)"
proof -
  have "0 \<le> y - 1" using y by simp
  then obtain a b c e where Y: "y - 1 = 400 * a + 100 * b + 4 * c + e"
    and bd: "0 \<le> a" "0 \<le> b" "b \<le> 3" "0 \<le> c" "c \<le> 24" "0 \<le> e" "e \<le> 3"
    by (rule year_decomp)
  have yeq: "y = 400 * a + 100 * b + 4 * c + e + 1" using Y by simp
  define t where "t = days_before_month y m + d - 1"
  have dby: "days_before_year y = 146097 * a + 36524 * b + 1461 * c + 365 * e"
    unfolding yeq using bd by (rule days_before_year_decomp)
  have leap: "is_leap y = (e = 3 \<and> (c \<noteq> 24 \<or> b = 3))"
    unfolding yeq using bd by (rule is_leap_decomp)
  have ord: "ymd2ord y m d = 146097 * a + 36524 * b + 1461 * c + 365 * e + t + 1"
    unfolding ymd2ord_def dby t_def by simp
  from day_of_year_bound [OF m d]
  have t0: "0 \<le> t" and t1: "t \<le> 364 + (if is_leap y then 1 else 0)"
    and t2: "t = 365 \<longrightarrow> m = 12 \<and> d = 31"
    unfolding t_def by simp_all
  show ?thesis
  proof (cases "t = 365")
    case True
    then have l: "e = 3 \<and> (c \<noteq> 24 \<or> b = 3)" using t1 leap by (simp split: if_splits)
    have "ord2ymd (146097 * a + 36524 * b + 1461 * c + 365 * e + 365 + 1)
        = (400 * a + 100 * b + 4 * c + e + 1, 12, 31)"
      using bd l by (rule ord2ymd_last_day)
    then have "ord2ymd (ymd2ord y m d) = (y, 12, 31)"
      unfolding ord True using yeq by simp
    then show ?thesis using t2 True by simp
  next
    case False
    then have t364: "t \<le> 364" using t1 by (simp split: if_splits)
    have "ord2ymd (146097 * a + 36524 * b + 1461 * c + 365 * e + t + 1)
        = month_and_day (400 * a + 100 * b + 4 * c + e + 1) (e = 3 \<and> (c \<noteq> 24 \<or> b = 3)) t"
      using bd t0 t364 by (rule ord2ymd_core)
    then have "ord2ymd (ymd2ord y m d) = month_and_day y (is_leap y) t"
      unfolding ord leap using yeq by simp
    then show ?thesis unfolding t_def using month_and_day_correct [OF m d] by simp
  qed
qed

section \<open>Parsing what was serialised\<close>

lemma length_pad_digits: "length (pad_digits k n) = k"
  by (induction k arbitrary: n) simp_all

lemma digit_char:
  fixes n :: int
  shows "digit_val (char_of (48 + n mod 10)) = Some (n mod 10)
     \<and> char_of (48 + n mod 10) \<noteq> CHR ''-'' \<and> char_of (48 + n mod 10) \<noteq> CHR ''+''
     \<and> \<not> py_isspace (char_of (48 + n mod 10))"
proof -
  have "n mod 10 = 0 \<or> n mod 10 = 1 \<or> n mod 10 = 2 \<or> n mod 10 = 3 \<or> n mod 10 = 4
     \<or> n mod 10 = 5 \<or> n mod 10 = 6 \<or> n mod 10 = 7 \<or> n mod 10 = 8 \<or> n mod 10 = 9"
    by presburger
  then show ?thesis
    by (elim disjE) (simp_all add: digit_val_def py_isspace_def char_of_def)
qed

lemma pad_digits_chars:
  "c \<in> set (pad_digits k n) \<Longrightarrow> c \<noteq> CHR ''-'' \<and> c \<noteq> CHR ''+'' \<and> \<not> py_isspace c"
  by (induction k arbitrary: n) (auto simp add: digit_char)

lemma parse_digits_acc_append:
  "parse_digits_acc a (xs @ ys)
     = (case parse_digits_acc a xs of None \<Rightarrow> None | Some v \<Rightarrow> parse_digits_acc v ys)"
  by (induction xs arbitrary: a) (simp_all split: option.splits)

lemma parse_digits_acc_pad:
  "parse_digits_acc a (pad_digits k n) = Some (a * 10 ^ k + n mod 10 ^ k)"
proof (induction k arbitrary: n a)
  case 0
  show ?case by simp
next
  case (Suc k)
  have "n mod (10 * 10 ^ k) = 10 * (n div 10 mod 10 ^ k) + n mod 10"
    by (rule zmod_zmult2_eq) simp
  then show ?case
    by (simp add: parse_digits_acc_append Suc digit_char algebra_simps)
qed

lemma parse_digits_pad:
  assumes "0 < k" "0 \<le> n" "n < 10 ^ k"
  shows "parse_digits (pad_digits k n) = Some n"
proof -
  have "pad_digits k n \<noteq> []" using assms(1) length_pad_digits [of k n] by auto
  then show ?thesis using assms by (simp add: parse_digits_def parse_digits_acc_pad)
qed

lemma format_fields_parts:
  "format_fields y m d hh mm ss us = date_part y m d @ ''T'' @ time_part hh mm ss us @ ''+08:00''"
  by (simp add: format_fields_def date_part_def time_part_def)

lemma length_date_part: "length (date_part y m d) = 10"
  by (simp add: date_part_def length_pad_digits)

lemma parse_date_part:
  assumes "0 \<le> y" "y < 10000" "0 \<le> m" "m < 100" "0 \<le> d" "d < 100"
  shows "parse_isoformat_date (date_part y m d) = Some (y, m, d)"
proof -
  have y: "parse_digits (pad_digits 4 y) = Some y" using assms by (intro parse_digits_pad) simp_all
  have m: "parse_digits (pad_digits 2 m) = Some m" using assms by (intro parse_digits_pad) simp_all
  have d: "parse_digits (pad_digits 2 d) = Some d" using assms by (intro parse_digits_pad) simp_all
  show ?thesis
    unfolding parse_isoformat_date_def date_part_def
    by (simp add: length_pad_digits nth_append y m d)
qed

lemma two_digits_pad:
  assumes "0 \<le> n" "n < 100"
  shows "two_digits (pad_digits 2 n @ rest) = Some (n, rest)"
proof -
  have "parse_digits (pad_digits 2 n) = Some n" using assms by (intro parse_digits_pad) simp_all
  then show ?thesis by (simp add: two_digits_def length_pad_digits)
qed

lemma parse_fraction_pad:
  assumes "0 \<le> us" "us < 1000000"
  shows "parse_fraction (if us \<noteq> 0 then ''.'' @ pad_digits 6 us else []) = Some us"
proof -
  have "parse_digits (pad_digits 6 us) = Some us" using assms by (intro parse_digits_pad) simp_all
  then show ?thesis by (simp add: parse_fraction_def length_pad_digits)
qed

lemma parse_time_part:
  assumes "0 \<le> hh" "hh < 100" "0 \<le> mm" "mm < 100" "0 \<le> ss" "ss < 100"
    "0 \<le> us" "us < 1000000"
  shows "parse_hh_mm_ss_ff (time_part hh mm ss us) = Some (hh, mm, ss, us)"
proof -
  let ?f = "if us \<noteq> 0 then ''.'' @ pad_digits 6 us else []"
  have f: "parse_fraction ?f = Some us" using assms by (intro parse_fraction_pad)
  have a: "two_digits (pad_digits 2 hh @ CHR '':'' # pad_digits 2 mm @ CHR '':'' # pad_digits 2 ss @ ?f)
      = Some (hh, CHR '':'' # pad_digits 2 mm @ CHR '':'' # pad_digits 2 ss @ ?f)"
    using assms by (intro two_digits_pad)
  have b: "two_digits (pad_digits 2 mm @ CHR '':'' # pad_digits 2 ss @ ?f)
      = Some (mm, CHR '':'' # pad_digits 2 ss @ ?f)"
    using assms by (intro two_digits_pad)
  have c: "two_digits (pad_digits 2 ss @ ?f) = Some (ss, ?f)"
    using assms by (intro two_digits_pad)
  have tp: "time_part hh mm ss us
      = pad_digits 2 hh @ CHR '':'' # pad_digits 2 mm @ CHR '':'' # pad_digits 2 ss @ ?f"
    by (simp add: time_part_def)
  show ?thesis unfolding parse_hh_mm_ss_ff_def tp a
    by (simp only: option.case prod.case list.case b c f simp_thms if_False option.map)
qed

lemma find_char_None: "c \<notin> set xs \<Longrightarrow> find_char c xs = None"
  by (induction xs) auto

lemma find_char_append_fresh:
  "c \<notin> set xs \<Longrightarrow> find_char c (xs @ ys) = map_option (\<lambda>i. length xs + i) (find_char c ys)"
proof (induction xs)
  case Nil
  show ?case by (cases "find_char c ys") simp_all
next
  case (Cons x xs)
  then have "x \<noteq> c" by auto
  then show ?case using Cons by (cases "find_char c ys") simp_all
qed

lemma time_part_chars:
  "c \<in> set (time_part hh mm ss us) \<Longrightarrow> c \<noteq> CHR ''-'' \<and> c \<noteq> CHR ''+''"
  by (auto simp add: time_part_def dest: pad_digits_chars split: if_splits)

lemma parse_tz_0800: "parse_hh_mm_ss_ff ''08:00'' = Some (8, 0, 0, 0)"
  by (simp add: parse_hh_mm_ss_ff_def two_digits_def parse_digits_def digit_val_def)

lemma parse_isoformat_time_canonical:
  assumes "0 \<le> hh" "hh < 100" "0 \<le> mm" "mm < 100" "0 \<le> ss" "ss < 100"
    "0 \<le> us" "us < 1000000"
  shows "parse_isoformat_time (time_part hh mm ss us @ ''+08:00'')
           = Some (hh, mm, ss, us, Some tz_offset)"
proof -
  let ?t = "time_part hh mm ss us"
  have no_minus: "CHR ''-'' \<notin> set (?t @ ''+08:00'')"
    using time_part_chars [of "CHR ''-''" hh mm ss us] by auto
  have no_plus: "CHR ''+'' \<notin> set ?t"
    using time_part_chars [of "CHR ''+''" hh mm ss us] by auto
  have fm: "find_char CHR ''-'' (?t @ ''+08:00'') = None"
    using no_minus by (rule find_char_None)
  have fp: "find_char CHR ''+'' (?t @ ''+08:00'') = Some (length ?t)"
    using find_char_append_fresh [OF no_plus, of "''+08:00''"] by simp
  have p: "parse_hh_mm_ss_ff ?t = Some (hh, mm, ss, us)"
    using assms by (intro parse_time_part)
  have len: "\<not> length (?t @ ''+08:00'') < 2" by simp
  show ?thesis
    unfolding parse_isoformat_time_def Let_def fm fp
    using len p parse_tz_0800
    by (simp add: nth_append tz_offset_def day_us_def)
qed

lemma fromisoformat_canonical:
  assumes "0 \<le> y" "y < 10000" "0 \<le> m" "m < 100" "0 \<le> d" "d < 100"
    "0 \<le> hh" "hh < 100" "0 \<le> mm" "mm < 100" "0 \<le> ss" "ss < 100"
    "0 \<le> us" "us < 1000000"
  shows "fromisoformat (format_fields y m d hh mm ss us)
     = map_option (\<lambda>w. \<lparr>wall = w, utcoffset = Some tz_offset\<rparr>) (make_wall y m d hh mm ss us)"
proof -
  let ?t = "time_part hh mm ss us @ ''+08:00''"
  have dp: "parse_isoformat_date (date_part y m d) = Some (y, m, d)"
    using assms by (intro parse_date_part)
  have tp: "parse_isoformat_time ?t = Some (hh, mm, ss, us, Some tz_offset)"
    using assms by (intro parse_isoformat_time_canonical)
  have tk: "take 10 (format_fields y m d hh mm ss us) = date_part y m d"
    by (simp add: format_fields_parts length_date_part)
  have dr: "drop 11 (format_fields y m d hh mm ss us) = ?t"
    by (simp add: format_fields_parts length_date_part)
  have ne: "?t \<noteq> []" by simp
  show ?thesis
    unfolding fromisoformat_def tk dr Let_def using dp tp ne by simp
qed

lemma make_wall_valid:
  "valid_fields y m d hh mm ss us \<Longrightarrow>
     make_wall y m d hh mm ss us = Some (wall_of_fields y m d hh mm ss us)"
  by (simp add: make_wall_def valid_fields_def wall_of_fields_def)

lemma days_in_month_le_31: "days_in_month y m \<le> 31"
  by (simp add: days_in_month_def)

lemma ymd2ord_bounds:
  assumes y: "1 \<le> y" "y \<le> 9999" and m: "1 \<le> m" "m \<le> 12"
    and d: "1 \<le> d" "d \<le> days_in_month y m"
  shows "365 * (y - 1) + 1 \<le> ymd2ord y m d \<and> ymd2ord y m d \<le> 3652059"
proof -
  have "0 \<le> y - 1" using y by simp
  then obtain a b c e where Y: "y - 1 = 400 * a + 100 * b + 4 * c + e"
    and bd: "0 \<le> a" "0 \<le> b" "b \<le> 3" "0 \<le> c" "c \<le> 24" "0 \<le> e" "e \<le> 3"
    by (rule year_decomp)
  have yeq: "y = 400 * a + 100 * b + 4 * c + e + 1" using Y by simp
  define t where "t = days_before_month y m + d - 1"
  have dby: "days_before_year y = 146097 * a + 36524 * b + 1461 * c + 365 * e"
    unfolding yeq using bd by (rule days_before_year_decomp)
  have leap: "is_leap y = (e = 3 \<and> (c \<noteq> 24 \<or> b = 3))"
    unfolding yeq using bd by (rule is_leap_decomp)
  have ord: "ymd2ord y m d = 146097 * a + 36524 * b + 1461 * c + 365 * e + t + 1"
    unfolding ymd2ord_def dby t_def by simp
  from day_of_year_bound [OF m d]
  have t0: "0 \<le> t" and t1: "t \<le> 364 + (if is_leap y then 1 else 0)"
    unfolding t_def by simp_all
  have lo: "365 * (y - 1) + 1 \<le> ymd2ord y m d"
    unfolding ord Y using bd t0 by simp
  have a24: "a \<le> 24" using Y y bd by linarith
  have hi: "ymd2ord y m d \<le> 3652059"
  proof (cases "a = 24")
    case False
    then have "a \<le> 23" using a24 by simp
    then show ?thesis unfolding ord using bd t1 by (simp split: if_splits)
  next
    case a: True
    show ?thesis
    proof (cases "b = 3")
      case False
      then have "b \<le> 2" using bd by simp
      then show ?thesis unfolding ord using a bd t1 by (simp split: if_splits)
    next
      case b: True
      show ?thesis
      proof (cases "c = 24")
        case False
        then have "c \<le> 23" using bd by simp
        then show ?thesis unfolding ord using a b bd t1 by (simp split: if_splits)
      next
        case c: True
        have "e \<le> 2" using Y y a b c by linarith
        then have "\<not> is_leap y" using leap by simp
        then have "t \<le> 364" using t1 by simp
        then show ?thesis unfolding ord using a b c \<open>e \<le> 2\<close> by simp
      qed
    qed
  qed
  show ?thesis using lo hi by simp
qed

lemma wall_div_mod:
  assumes v: "valid_fields y m d hh mm ss us"
  shows "wall_of_fields y m d hh mm ss us div day_us = ymd2ord y m d - 1"
    and "wall_of_fields y m d hh mm ss us mod day_us = (hh * 3600 + mm * 60 + ss) * 1000000 + us"
proof -
  let ?r = "(hh * 3600 + mm * 60 + ss) * 1000000 + us"
  have r: "0 \<le> ?r" "?r < day_us" using v by (simp_all add: valid_fields_def day_us_def)
  have w: "wall_of_fields y m d hh mm ss us = (ymd2ord y m d - 1) * day_us + ?r"
    by (simp add: wall_of_fields_def day_us_def)
  show "wall_of_fields y m d hh mm ss us div day_us = ymd2ord y m d - 1"
    unfolding w using r by (rule div_mod_unique_int(1))
  show "wall_of_fields y m d hh mm ss us mod day_us = ?r"
    unfolding w using r by (rule div_mod_unique_int(2))
qed

lemma time_div_mod:
  fixes hh mm ss us :: int
  assumes "0 \<le> hh" "0 \<le> mm" "mm \<le> 59" "0 \<le> ss" "ss \<le> 59" "0 \<le> us" "us \<le> 999999"
  shows "((hh * 3600 + mm * 60 + ss) * 1000000 + us) div 1000000 = hh * 3600 + mm * 60 + ss"
    and "((hh * 3600 + mm * 60 + ss) * 1000000 + us) mod 1000000 = us"
    and "(hh * 3600 + mm * 60 + ss) div 3600 = hh"
    and "(hh * 3600 + mm * 60 + ss) mod 3600 div 60 = mm"
    and "(hh * 3600 + mm * 60 + ss) mod 60 = ss"
proof -
  show "((hh * 3600 + mm * 60 + ss) * 1000000 + us) div 1000000 = hh * 3600 + mm * 60 + ss"
    using assms by (intro div_mod_unique_int(1)) simp_all
  show "((hh * 3600 + mm * 60 + ss) * 1000000 + us) mod 1000000 = us"
    using assms by (intro div_mod_unique_int(2)) simp_all
  have s: "hh * 3600 + mm * 60 + ss = hh * 3600 + (mm * 60 + ss)" by simp
  show "(hh * 3600 + mm * 60 + ss) div 3600 = hh"
    unfolding s using assms by (intro div_mod_unique_int(1)) simp_all
  have m1: "(hh * 3600 + mm * 60 + ss) mod 3600 = mm * 60 + ss"
    unfolding s using assms by (intro div_mod_unique_int(2)) simp_all
  show "(hh * 3600 + mm * 60 + ss) mod 3600 div 60 = mm"
    unfolding m1 using assms by (intro div_mod_unique_int(1)) simp_all
  have s2: "hh * 3600 + mm * 60 + ss = (hh * 60 + mm) * 60 + ss" by simp
  show "(hh * 3600 + mm * 60 + ss) mod 60 = ss"
    unfolding s2 using assms by (intro div_mod_unique_int(2)) simp_all
qed

lemma isoformat_wall_of_fields:
  assumes v: "valid_fields y m d hh mm ss us"
  shows "isoformat (wall_of_fields y m d hh mm ss us) = format_fields y m d hh mm ss us"
proof -
  have o: "ord2ymd (ymd2ord y m d - 1 + 1) = (y, m, d)"
    using v ord2ymd_ymd2ord [of y m d] by (simp add: valid_fields_def)
  have t: "0 \<le> hh" "0 \<le> mm" "mm \<le> 59" "0 \<le> ss" "ss \<le> 59" "0 \<le> us" "us \<le> 999999"
    using v by (simp_all add: valid_fields_def)
  show ?thesis
    unfolding isoformat_def Let_def wall_div_mod [OF v] o
    by (simp only: prod.case time_div_mod [OF t])
qed

lemma format_fields_ends:
  "format_fields y m d hh mm ss us \<noteq> []
   \<and> \<not> py_isspace (hd (format_fields y m d hh mm ss us))
   \<and> last (format_fields y m d hh mm ss us) = CHR ''0''"
proof -
  obtain c cs where p: "pad_digits 4 y = c # cs"
    using length_pad_digits [of 4 y] by (cases "pad_digits 4 y") simp_all
  have "c \<in> set (pad_digits 4 y)" using p by simp
  then have "\<not> py_isspace c" by (auto dest: pad_digits_chars)
  then show ?thesis by (simp add: format_fields_def p)
qed

lemma endswith_Z_iff: "endswith s ''Z'' = (s \<noteq> [] \<and> last s = CHR ''Z'')"
proof (cases s rule: rev_cases)
  case Nil
  then show ?thesis by (simp add: endswith_def)
next
  case (snoc xs x)
  then show ?thesis by (auto simp add: endswith_def)
qed

lemma wall_in_range:
  assumes v: "valid_fields y m d hh mm ss us"
  shows "365 * (y - 1) * day_us \<le> wall_of_fields y m d hh mm ss us
     \<and> wall_of_fields y m d hh mm ss us < max_ordinal * day_us"
proof -
  let ?r = "(hh * 3600 + mm * 60 + ss) * 1000000 + us"
  have r: "0 \<le> ?r" "?r < day_us" using v by (simp_all add: valid_fields_def day_us_def)
  have w: "wall_of_fields y m d hh mm ss us = (ymd2ord y m d - 1) * day_us + ?r"
    by (simp add: wall_of_fields_def day_us_def)
  have b: "365 * (y - 1) + 1 \<le> ymd2ord y m d \<and> ymd2ord y m d \<le> 3652059"
    using v by (intro ymd2ord_bounds) (simp_all add: valid_fields_def)
  show ?thesis unfolding w using r b by (simp add: day_us_def max_ordinal_def)
qed

lemma parse_datetime_canonical:
  assumes v: "valid_fields y m d hh mm ss us" and y: "1980 \<le> y"
  shows "parse_datetime (Some (format_fields y m d hh mm ss us))
           = Some (wall_of_fields y m d hh mm ss us)"
proof -
  let ?s = "format_fields y m d hh mm ss us" and ?w = "wall_of_fields y m d hh mm ss us"
  have e: "?s \<noteq> []" "\<not> py_isspace (hd ?s)" "last ?s = CHR ''0''"
    using format_fields_ends [of y m d hh mm ss us] by simp_all
  have "\<not> py_isspace (last ?s)" unfolding e(3) by (simp add: py_isspace_def)
  then have st: "strip ?s = ?s" using e by (intro strip_id)
  have nz: "\<not> endswith ?s ''Z''" by (simp add: endswith_Z_iff e(3))
  have f: "fromisoformat ?s = Some \<lparr>wall = ?w, utcoffset = Some tz_offset\<rparr>"
    using v fromisoformat_canonical [of y m d hh mm ss us] make_wall_valid [OF v]
    by (simp add: valid_fields_def days_in_month_def split: if_splits)
  have rg: "in_range (?w - tz_offset)" "in_range ?w"
    using wall_in_range [OF v] y by (simp_all add: in_range_def tz_offset_def day_us_def max_ordinal_def)
  have a: "astimezone_TZ ?w tz_offset = Some ?w"
    using rg by (simp add: astimezone_TZ_def Let_def)
  show ?thesis
    unfolding parse_datetime_def using e(1) by (simp add: st nz f a Let_def)
qed

lemma replace_Z_no_Z: "CHR ''Z'' \<notin> set s \<Longrightarrow> replace_Z s = s"
  unfolding replace_Z_def by (induction s) auto

lemma replace_Z_append: "replace_Z (xs @ ys) = replace_Z xs @ replace_Z ys"
  by (simp add: replace_Z_def)

lemma dropWhile_append_nonmatching:
  "ys \<noteq> [] \<Longrightarrow> \<not> P (hd ys) \<Longrightarrow> dropWhile P (xs @ ys) = dropWhile P xs @ ys"
  by (induction xs) (auto simp add: neq_Nil_conv)

lemma strip_append_suffix:
  assumes "ys \<noteq> []" "\<not> py_isspace (hd ys)" "\<not> py_isspace (last ys)"
  shows "strip (xs @ ys) = dropWhile py_isspace xs @ ys"
proof -
  have a: "dropWhile py_isspace (xs @ ys) = dropWhile py_isspace xs @ ys"
    using assms by (intro dropWhile_append_nonmatching)
  have r: "rev ys \<noteq> []" "\<not> py_isspace (hd (rev ys))" using assms by (simp_all add: hd_rev)
  have b: "dropWhile py_isspace (rev ys @ rev (dropWhile py_isspace xs))
      = rev ys @ rev (dropWhile py_isspace xs)"
    using r by (cases "rev ys") simp_all
  show ?thesis by (simp add: strip_def a b)
qed

lemma parse_datetime_Z:
  assumes "CHR ''Z'' \<notin> set body"
  shows "parse_datetime (Some (body @ ''Z'')) = parse_datetime (Some (body @ ''+00:00''))"
proof -
  let ?b = "dropWhile py_isspace body"
  have s1: "strip (body @ ''Z'') = ?b @ ''Z''"
    by (intro strip_append_suffix) (simp_all add: py_isspace_def)
  have s2: "strip (body @ ''+00:00'') = ?b @ ''+00:00''"
    by (intro strip_append_suffix) (simp_all add: py_isspace_def)
  have "set ?b \<subseteq> set body" by (auto dest: set_dropWhileD)
  then have nz: "CHR ''Z'' \<notin> set ?b" using assms by auto
  have r: "replace_Z (?b @ ''Z'') = ?b @ ''+00:00''"
    by (simp add: replace_Z_append replace_Z_no_Z [OF nz]) (simp add: replace_Z_def)
  have e1: "endswith (?b @ ''Z'') ''Z''" by (simp add: endswith_Z_iff)
  have e2: "\<not> endswith (?b @ ''+00:00'') ''Z''" by (simp add: endswith_Z_iff)
  show ?thesis
    unfolding parse_datetime_def by (simp add: s1 s2 r e1 e2 Let_def)
qed

lemma parse_tz_0000: "parse_hh_mm_ss_ff ''00:00'' = Some (0, 0, 0, 0)"
  by (simp add: parse_hh_mm_ss_ff_def two_digits_def parse_digits_def digit_val_def)

lemma parse_isoformat_time_utc:
  assumes "0 \<le> hh" "hh < 100" "0 \<le> mm" "mm < 100" "0 \<le> ss" "ss < 100"
    "0 \<le> us" "us < 1000000"
  shows "parse_isoformat_time (time_part hh mm ss us @ ''+00:00'')
           = Some (hh, mm, ss, us, Some 0)"
proof -
  let ?t = "time_part hh mm ss us"
  have no_minus: "CHR ''-'' \<notin> set (?t @ ''+00:00'')"
    using time_part_chars [of "CHR ''-''" hh mm ss us] by auto
  have no_plus: "CHR ''+'' \<notin> set ?t"
    using time_part_chars [of "CHR ''+''" hh mm ss us] by auto
  have fm: "find_char CHR ''-'' (?t @ ''+00:00'') = None"
    using no_minus by (rule find_char_None)
  have fp: "find_char CHR ''+'' (?t @ ''+00:00'') = Some (length ?t)"
    using find_char_append_fresh [OF no_plus, of "''+00:00''"] by simp
  have p: "parse_hh_mm_ss_ff ?t = Some (hh, mm, ss, us)"
    using assms by (intro parse_time_part)
  have len: "\<not> length (?t @ ''+00:00'') < 2" by simp
  show ?thesis
    unfolding parse_isoformat_time_def Let_def fm fp
    using len p parse_tz_0000
    by (simp add: nth_append day_us_def)
qed

lemma fromisoformat_utc:
  assumes v: "valid_fields y m d hh mm ss us"
  shows "fromisoformat (utc_body y m d hh mm ss us @ ''+00:00'')
     = Some \<lparr>wall = wall_of_fields y m d hh mm ss us, utcoffset = Some 0\<rparr>"
proof -
  let ?t = "time_part hh mm ss us @ ''+00:00''"
  have b: "0 \<le> y" "y < 10000" "0 \<le> m" "m < 100" "0 \<le> d" "d < 100"
    "0 \<le> hh" "hh < 100" "0 \<le> mm" "mm < 100" "0 \<le> ss" "ss < 100"
    "0 \<le> us" "us < 1000000"
    using v days_in_month_le_31 [of y m] by (simp_all add: valid_fields_def)
  have dp: "parse_isoformat_date (date_part y m d) = Some (y, m, d)"
    using b by (intro parse_date_part)
  have tp: "parse_isoformat_time ?t = Some (hh, mm, ss, us, Some 0)"
    using b by (intro parse_isoformat_time_utc)
  have tk: "take 10 (utc_body y m d hh mm ss us @ ''+00:00'') = date_part y m d"
    by (simp add: utc_body_def length_date_part)
  have dr: "drop 11 (utc_body y m d hh mm ss us @ ''+00:00'') = ?t"
    by (simp add: utc_body_def length_date_part)
  have ne: "?t \<noteq> []" by simp
  show ?thesis
    unfolding fromisoformat_def tk dr Let_def using dp tp ne make_wall_valid [OF v] by simp
qed

lemma utc_body_no_Z: "CHR ''Z'' \<notin> set (utc_body y m d hh mm ss us)"
proof -
  have "\<And>k n. CHR ''Z'' \<notin> set (pad_digits k n)"
  proof -
    fix k n show "CHR ''Z'' \<notin> set (pad_digits k n)"
    proof (induction k arbitrary: n)
      case 0
      show ?case by simp
    next
      case (Suc k)
      have "n mod 10 = 0 \<or> n mod 10 = 1 \<or> n mod 10 = 2 \<or> n mod 10 = 3 \<or> n mod 10 = 4
         \<or> n mod 10 = 5 \<or> n mod 10 = 6 \<or> n mod 10 = 7 \<or> n mod 10 = 8 \<or> n mod 10 = 9"
        by presburger
      then have "char_of (48 + n mod 10) \<noteq> CHR ''Z''"
        by (elim disjE) (simp_all add: char_of_def)
      then show ?case using Suc by auto
    qed
  qed
  then show ?thesis by (simp add: utc_body_def date_part_def time_part_def)
qed

lemma utc_body_head:
  "utc_body y m d hh mm ss us \<noteq> [] \<and> \<not> py_isspace (hd (utc_body y m d hh mm ss us))"
proof -
  obtain c cs where p: "pad_digits 4 y = c # cs"
    using length_pad_digits [of 4 y] by (cases "pad_digits 4 y") simp_all
  have "c \<in> set (pad_digits 4 y)" using p by simp
  then have "\<not> py_isspace c" by (auto dest: pad_digits_chars)
  then show ?thesis by (simp add: utc_body_def date_part_def p)
qed

lemma parse_datetime_utc:
  assumes v: "valid_fields y m d hh mm ss us"
    and r: "in_range (wall_of_fields y m d hh mm ss us + tz_offset)"
  shows "parse_datetime (Some (utc_body y m d hh mm ss us @ ''+00:00''))
           = Some (wall_of_fields y m d hh mm ss us + tz_offset)"
proof -
  let ?s = "utc_body y m d hh mm ss us @ ''+00:00''" and ?w = "wall_of_fields y m d hh mm ss us"
  have h: "?s \<noteq> []" "\<not> py_isspace (hd ?s)"
    using utc_body_head [of y m d hh mm ss us] by simp_all
  have l: "last ?s = CHR ''0''" by simp
  have "\<not> py_isspace (last ?s)" unfolding l by (simp add: py_isspace_def)
  then have st: "strip ?s = ?s" using h by (intro strip_id)
  have nz: "\<not> endswith ?s ''Z''" unfolding endswith_Z_iff l by simp
  have f: "fromisoformat ?s = Some \<lparr>wall = ?w, utcoffset = Some 0\<rparr>"
    using v by (rule fromisoformat_utc)
  have "0 \<le> ?w" using wall_in_range [OF v] v by (simp add: valid_fields_def day_us_def)
  moreover have "?w < max_ordinal * day_us" using r by (simp add: in_range_def tz_offset_def)
  ultimately have "in_range ?w" by (simp add: in_range_def)
  then have a: "astimezone_TZ ?w 0 = Some (?w + tz_offset)"
    using r by (simp add: astimezone_TZ_def Let_def)
  show ?thesis
    unfolding parse_datetime_def using h(1) by (simp add: st nz f a Let_def del: append_assoc)
qed

section \<open>Claims\<close>

text \<open>
  Claim C10. The flags \<open>stop_requested\<close> and \<open>seen_recent_article\<close> start false and
  \<open>seen_urls\<close> starts empty; the loop body of \<open>parse_archive\<close>, a whole \<open>parse_archive\<close>,
  \<open>parse_article\<close> and any run of the crawl leave a flag that was true true, and remove no
  URL from \<open>seen_urls\<close>.
\<close>

theorem flags_monotone:
  "(init_spider e ms mu oss = Some sp0 \<longrightarrow>
      \<not> stop_requested sp0 \<and> \<not> seen_recent_article sp0 \<and> seen_urls sp0 = {||})
   \<and> grows sp (fst (anchor_body a sp))
   \<and> grows sp (fst (parse_archive pages sp))
   \<and> grows sp (fst (parse_article r h sp))
   \<and> grows (spider_of c) (spider_of (crawl_run evs c))"
proof -
  have "init_spider e ms mu oss = Some sp0 \<longrightarrow>
      \<not> stop_requested sp0 \<and> \<not> seen_recent_article sp0 \<and> seen_urls sp0 = {||}"
    by (auto simp add: init_spider_def split: if_splits)
  then show ?thesis
    by (simp add: anchor_body_grows parse_article_grows crawl_run_grows scroll_loop_grows
        parse_archive_def)
qed

theorem flags_monotone_witness:
  "init_spider 63852832800000000 None (Some 5) 20 = Some example_spider
   \<and> \<not> stop_requested example_spider \<and> \<not> seen_recent_article example_spider
   \<and> seen_urls example_spider = {||}
   \<and> stop_requested stopped_spider
   \<and> stop_requested (fst (parse_article (example_response (Some ''2024-06-01T09:30:00+08:00'') None)
          None stopped_spider))
   \<and> seen_recent_article (fst (anchor_body (example_anchor ''b'' None) stopped_spider))
   \<and> seen_urls stopped_spider |\<subseteq>|
        seen_urls (fst (parse_archive [[example_anchor ''b'' None]] stopped_spider))"
proof -
  have i: "init_spider 63852832800000000 None (Some 5) 20 = Some example_spider"
    by code_simp
  have s: "stop_requested stopped_spider \<and> seen_recent_article stopped_spider"
    by code_simp
  show ?thesis
    using i s
      flags_monotone [of 63852832800000000 None "Some 5" 20 example_spider stopped_spider
        "example_anchor ''b'' None" "[[example_anchor ''b'' None]]"
        "example_response (Some ''2024-06-01T09:30:00+08:00'') None" None
        "init_crawl example_spider" "[]"]
    by (simp add: grows_def)
qed




text \<open>
  Claim C4, as the code has it. A too-old instant met while \<open>seen_recent_article\<close> is false
  leaves the state as it is (no increment, nothing dispatched, nothing emitted), at the
  listing and at the article. The streak grows in a step only if \<open>seen_recent_article\<close> was
  already true; that flag is only set by an instant in the closed window
  \<open>start_dt \<le> t \<le> end_dt\<close>, which is the spec's IN_WINDOW or the instant \<open>end_dt\<close>
  itself; and in a run the streak is 0 as long as the flag is false.
\<close>

theorem old_before_window_not_counted:
  "(listing_instant a sp = Some t \<and> spec_classify sp t = TOO_OLD \<and> \<not> seen_recent_article sp
      \<longrightarrow> anchor_body a sp = (sp, [], Continue))
   \<and> (resolve_pub_dt r h = Some u \<and> spec_classify sp u = TOO_OLD \<and> \<not> seen_recent_article sp
      \<longrightarrow> parse_article r h sp = (sp, []))
   \<and> (0 \<le> old_count_streak sp
        \<and> old_count_streak sp < old_count_streak (fst (anchor_body a sp))
      \<longrightarrow> seen_recent_article sp)
   \<and> (0 \<le> old_count_streak sp
        \<and> old_count_streak sp < old_count_streak (fst (parse_article r h sp))
      \<longrightarrow> seen_recent_article sp)
   \<and> (seen_recent_article (fst (anchor_body a sp)) \<and> \<not> seen_recent_article sp
      \<longrightarrow> (\<exists>t'. listing_instant a sp = Some t' \<and> start_dt sp \<le> t' \<and> t' \<le> end_dt sp
                \<and> (spec_classify sp t' = IN_WINDOW \<or> t' = end_dt sp)))
   \<and> (seen_recent_article (fst (parse_article r h sp)) \<and> \<not> seen_recent_article sp
      \<longrightarrow> (\<exists>u'. resolve_pub_dt r h = Some u' \<and> start_dt sp \<le> u' \<and> u' \<le> end_dt sp
                \<and> (spec_classify sp u' = IN_WINDOW \<or> u' = end_dt sp)))
   \<and> (init_spider e ms mu k = Some sp0
        \<and> \<not> seen_recent_article (spider_of (crawl_run evs (init_crawl sp0)))
      \<longrightarrow> old_count_streak (spider_of (crawl_run evs (init_crawl sp0))) = 0)"
proof -
  have run: "init_spider e ms mu k = Some sp0
        \<and> \<not> seen_recent_article (spider_of (crawl_run evs (init_crawl sp0)))
      \<longrightarrow> old_count_streak (spider_of (crawl_run evs (init_crawl sp0))) = 0"
  proof (intro impI, elim conjE)
    assume i: "init_spider e ms mu k = Some sp0"
      and n: "\<not> seen_recent_article (spider_of (crawl_run evs (init_crawl sp0)))"
    have "streak_inv0 (spider_of (init_crawl sp0))"
      using init_spider_fields [OF i] by (simp add: streak_inv0_def init_crawl_def)
    then have "streak_inv0 (spider_of (crawl_run evs (init_crawl sp0)))"
      by (rule crawl_run_streak_inv0)
    then show "old_count_streak (spider_of (crawl_run evs (init_crawl sp0))) = 0"
      using n by (simp add: streak_inv0_def)
  qed
  have o1: "listing_instant a sp = Some t \<and> spec_classify sp t = TOO_OLD \<and> \<not> seen_recent_article sp
      \<longrightarrow> anchor_body a sp = (sp, [], Continue)"
    using anchor_body_old_unseen [of a sp t] spec_classify_too_old [of sp t] by blast
  have o2: "resolve_pub_dt r h = Some u \<and> spec_classify sp u = TOO_OLD \<and> \<not> seen_recent_article sp
      \<longrightarrow> parse_article r h sp = (sp, [])"
    using parse_article_old_unseen [of r h u sp] spec_classify_too_old [of sp u] by blast
  have r1: "seen_recent_article (fst (anchor_body a sp)) \<and> \<not> seen_recent_article sp
      \<longrightarrow> (\<exists>t'. listing_instant a sp = Some t' \<and> start_dt sp \<le> t' \<and> t' \<le> end_dt sp
                \<and> (spec_classify sp t' = IN_WINDOW \<or> t' = end_dt sp))"
  proof (intro impI, elim conjE)
    assume "seen_recent_article (fst (anchor_body a sp))" "\<not> seen_recent_article sp"
    then obtain t' where "listing_instant a sp = Some t'" "classify sp t' = IN_WINDOW"
      using anchor_body_seen_recent [of a sp] by blast
    then show "\<exists>t'. listing_instant a sp = Some t' \<and> start_dt sp \<le> t' \<and> t' \<le> end_dt sp
                \<and> (spec_classify sp t' = IN_WINDOW \<or> t' = end_dt sp)"
      using classify_in_window_closed [of sp t'] by blast
  qed
  have r2: "seen_recent_article (fst (parse_article r h sp)) \<and> \<not> seen_recent_article sp
      \<longrightarrow> (\<exists>u'. resolve_pub_dt r h = Some u' \<and> start_dt sp \<le> u' \<and> u' \<le> end_dt sp
                \<and> (spec_classify sp u' = IN_WINDOW \<or> u' = end_dt sp))"
  proof (intro impI, elim conjE)
    assume "seen_recent_article (fst (parse_article r h sp))" "\<not> seen_recent_article sp"
    then obtain u' where "resolve_pub_dt r h = Some u'" "classify sp u' = IN_WINDOW"
      using parse_article_seen_recent [of r h sp] by blast
    then show "\<exists>u'. resolve_pub_dt r h = Some u' \<and> start_dt sp \<le> u' \<and> u' \<le> end_dt sp
                \<and> (spec_classify sp u' = IN_WINDOW \<or> u' = end_dt sp)"
      using classify_in_window_closed [of sp u'] by blast
  qed
  have g1: "0 \<le> old_count_streak sp
        \<and> old_count_streak sp < old_count_streak (fst (anchor_body a sp))
      \<longrightarrow> seen_recent_article sp"
    using anchor_body_streak_grows [of sp a] by blast
  have g2: "0 \<le> old_count_streak sp
        \<and> old_count_streak sp < old_count_streak (fst (parse_article r h sp))
      \<longrightarrow> seen_recent_article sp"
    using parse_article_streak_grows [of sp r h] by blast
  from o1 o2 g1 g2 r1 r2 run show ?thesis by (intro conjI)
qed

theorem old_before_window_not_counted_witness:
  "listing_instant (example_anchor ''c'' (Some ''2024-06-01T08:58:00+08:00'')) example_spider
     = Some 63852829080000000
   \<and> spec_classify example_spider 63852829080000000 = TOO_OLD
   \<and> \<not> seen_recent_article example_spider
   \<and> anchor_body (example_anchor ''c'' (Some ''2024-06-01T08:58:00+08:00'')) example_spider
     = (example_spider, [], Continue)
   \<and> resolve_pub_dt (example_response (Some ''2024-06-01T08:58:00+08:00'') None) None
     = Some 63852829080000000
   \<and> parse_article (example_response (Some ''2024-06-01T08:58:00+08:00'') None) None example_spider
     = (example_spider, [])
   \<and> old_count_streak warm_spider
       < old_count_streak (fst (anchor_body (example_anchor ''c'' (Some ''2024-06-01T08:58:00+08:00''))
           warm_spider))
   \<and> old_count_streak warm_spider
       < old_count_streak (fst (parse_article
           (example_response (Some ''2024-06-01T08:58:00+08:00'') None) None warm_spider))
   \<and> seen_recent_article warm_spider
   \<and> seen_recent_article (fst (anchor_body
         (example_anchor ''e'' (Some ''2024-06-01T10:00:00+08:00'')) example_spider))
   \<and> (\<exists>t'. listing_instant (example_anchor ''e'' (Some ''2024-06-01T10:00:00+08:00'')) example_spider
         = Some t' \<and> start_dt example_spider \<le> t' \<and> t' \<le> end_dt example_spider
         \<and> (spec_classify example_spider t' = IN_WINDOW \<or> t' = end_dt example_spider))
   \<and> seen_recent_article (fst (parse_article
         (example_response (Some ''2024-06-01T09:30:00+08:00'') None) None example_spider))
   \<and> (\<exists>u'. resolve_pub_dt (example_response (Some ''2024-06-01T09:30:00+08:00'') None) None
         = Some u' \<and> start_dt example_spider \<le> u' \<and> u' \<le> end_dt example_spider
         \<and> (spec_classify example_spider u' = IN_WINDOW \<or> u' = end_dt example_spider))
   \<and> init_spider 63852832800000000 None (Some 5) 20 = Some example_spider
   \<and> \<not> seen_recent_article (spider_of (crawl_run
         [Listing_anchor (example_anchor ''c'' (Some ''2024-06-01T08:58:00+08:00''))]
         (init_crawl example_spider)))
   \<and> old_count_streak (spider_of (crawl_run
         [Listing_anchor (example_anchor ''c'' (Some ''2024-06-01T08:58:00+08:00''))]
         (init_crawl example_spider))) = 0"
proof -
  let ?c = "example_anchor ''c'' (Some ''2024-06-01T08:58:00+08:00'')"
  let ?e = "example_anchor ''e'' (Some ''2024-06-01T10:00:00+08:00'')"
  let ?rin = "example_response (Some ''2024-06-01T09:30:00+08:00'') None"
  let ?rold = "example_response (Some ''2024-06-01T08:58:00+08:00'') None"
  let ?evs = "[Listing_anchor ?c]"
  note cold = old_before_window_not_counted [of ?c example_spider 63852829080000000 ?rold None
      63852829080000000 63852832800000000 None "Some 5" 20 example_spider ?evs]
  note warm = old_before_window_not_counted [of ?c warm_spider 63852829080000000 ?rold None
      63852829080000000 63852832800000000 None "Some 5" 20 example_spider ?evs]
  note inw = old_before_window_not_counted [of ?e example_spider 63852829080000000 ?rin None
      63852829080000000 63852832800000000 None "Some 5" 20 example_spider ?evs]
  have h1: "listing_instant ?c example_spider = Some 63852829080000000
     \<and> spec_classify example_spider 63852829080000000 = TOO_OLD
     \<and> \<not> seen_recent_article example_spider"
    by code_simp
  have h1': "resolve_pub_dt ?rold None = Some 63852829080000000
     \<and> spec_classify example_spider 63852829080000000 = TOO_OLD
     \<and> \<not> seen_recent_article example_spider"
    by code_simp
  have t1: "anchor_body ?c example_spider = (example_spider, [], Continue)"
    using cold [THEN conjunct1, rule_format, OF h1] .
  have t1': "parse_article ?rold None example_spider = (example_spider, [])"
    using cold [THEN conjunct2, THEN conjunct1, rule_format, OF h1'] .
  have h2: "0 \<le> old_count_streak warm_spider
     \<and> old_count_streak warm_spider < old_count_streak (fst (anchor_body ?c warm_spider))"
    by code_simp
  have h2': "0 \<le> old_count_streak warm_spider
     \<and> old_count_streak warm_spider < old_count_streak (fst (parse_article ?rold None warm_spider))"
    by code_simp
  have t2: "seen_recent_article warm_spider"
    using warm [THEN conjunct2, THEN conjunct2, THEN conjunct1, rule_format, OF h2] .
  have t2': "seen_recent_article warm_spider"
    using warm [THEN conjunct2, THEN conjunct2, THEN conjunct2, THEN conjunct1, rule_format, OF h2'] .
  have h3: "seen_recent_article (fst (anchor_body ?e example_spider))
     \<and> \<not> seen_recent_article example_spider"
    by code_simp
  have h3': "seen_recent_article (fst (parse_article ?rin None example_spider))
     \<and> \<not> seen_recent_article example_spider"
    by code_simp
  have t3: "\<exists>t'. listing_instant ?e example_spider = Some t'
         \<and> start_dt example_spider \<le> t' \<and> t' \<le> end_dt example_spider
         \<and> (spec_classify example_spider t' = IN_WINDOW \<or> t' = end_dt example_spider)"
    using inw [THEN conjunct2, THEN conjunct2, THEN conjunct2, THEN conjunct2, THEN conjunct1,
        rule_format, OF h3] .
  have t3': "\<exists>u'. resolve_pub_dt ?rin None = Some u'
         \<and> start_dt example_spider \<le> u' \<and> u' \<le> end_dt example_spider
         \<and> (spec_classify example_spider u' = IN_WINDOW \<or> u' = end_dt example_spider)"
    using inw [THEN conjunct2, THEN conjunct2, THEN conjunct2, THEN conjunct2, THEN conjunct2,
        THEN conjunct1, rule_format, OF h3'] .
  have h4: "init_spider 63852832800000000 None (Some 5) 20 = Some example_spider
     \<and> \<not> seen_recent_article (spider_of (crawl_run ?evs (init_crawl example_spider)))"
    by code_simp
  have t4: "old_count_streak (spider_of (crawl_run ?evs (init_crawl example_spider))) = 0"
    using cold [THEN conjunct2, THEN conjunct2, THEN conjunct2, THEN conjunct2, THEN conjunct2,
        THEN conjunct2, rule_format, OF h4] .
  from h1 h1' h2 h2' h3 h3' h4 t1 t1' t2 t3 t3' t4 show ?thesis
    by (intro conjI) (erule conjunct1 conjunct2 | assumption | blast)+
qed

text \<open>
  The second half of the claim as stated fails at the end of the window: a card dated
  2024-06-01T10:00, which the spec classifies as too new, sets
  \<open>seen_recent_article\<close> (line 171), and the too-old card after it grows the streak to 1
  although no IN_WINDOW item has been seen.
\<close>

theorem card_at_window_end_opens_streak:
  "init_spider 63852832800000000 None (Some 5) 20 = Some example_spider
   \<and> end_dt example_spider = 63852832800000000
   \<and> listing_instant (example_anchor ''e'' (Some ''2024-06-01T10:00:00+08:00'')) example_spider
     = Some 63852832800000000
   \<and> spec_classify example_spider 63852832800000000 = TOO_NEW
   \<and> seen_recent_article (fst (anchor_body
         (example_anchor ''e'' (Some ''2024-06-01T10:00:00+08:00'')) example_spider))
   \<and> listing_instant (example_anchor ''c'' (Some ''2024-06-01T08:58:00+08:00''))
        (fst (anchor_body (example_anchor ''e'' (Some ''2024-06-01T10:00:00+08:00'')) example_spider))
     = Some 63852829080000000
   \<and> spec_classify (fst (anchor_body (example_anchor ''e'' (Some ''2024-06-01T10:00:00+08:00''))
        example_spider)) 63852829080000000 = TOO_OLD
   \<and> old_count_streak (spider_of (crawl_run
         [Listing_anchor (example_anchor ''e'' (Some ''2024-06-01T10:00:00+08:00''))]
         (init_crawl example_spider))) = 0
   \<and> old_count_streak (spider_of (crawl_run
         [Listing_anchor (example_anchor ''e'' (Some ''2024-06-01T10:00:00+08:00'')),
          Listing_anchor (example_anchor ''c'' (Some ''2024-06-01T08:58:00+08:00''))]
         (init_crawl example_spider))) = 1"
  by code_simp

text \<open>
  Claim C1, as the code has it. Every item \<open>parse_article\<close> yields carries the resolved date
  \<open>t\<close> with \<open>start_dt \<le> t \<le> end_dt\<close>: the window is closed at its end. An article
  whose date is exactly \<open>end_dt\<close> is yielded; one after \<open>end_dt\<close> is dropped. The bound holds
  of every item in the feed of a run.
\<close>

theorem emitted_date_in_closed_window:
  "(it \<in> set (snd (parse_article r h sp)) \<longrightarrow>
      (\<exists>t. resolve_pub_dt r h = Some t \<and> date it = isoformat t
            \<and> start_dt sp \<le> t \<and> t \<le> end_dt sp))
   \<and> (resolve_pub_dt r h = Some (end_dt sp) \<and> start_dt sp \<le> end_dt sp \<longrightarrow>
        snd (parse_article r h sp) = [make_item r (end_dt sp)])
   \<and> (resolve_pub_dt r h = Some u \<and> end_dt sp < u \<longrightarrow> parse_article r h sp = (sp, []))
   \<and> (it \<in> set (feed (crawl_run evs (init_crawl sp))) \<longrightarrow>
        (\<exists>t. date it = isoformat t \<and> start_dt sp \<le> t \<and> t \<le> end_dt sp))"
proof -
  have a: "it \<in> set (snd (parse_article r h sp)) \<longrightarrow>
      (\<exists>t. resolve_pub_dt r h = Some t \<and> date it = isoformat t
            \<and> start_dt sp \<le> t \<and> t \<le> end_dt sp)"
    using parse_article_items [of it r h sp] by (auto simp add: make_item_def)
  have b: "resolve_pub_dt r h = Some (end_dt sp) \<and> start_dt sp \<le> end_dt sp \<longrightarrow>
        snd (parse_article r h sp) = [make_item r (end_dt sp)]"
    by (auto simp add: parse_article_cases classify_def)
  have c: "resolve_pub_dt r h = Some u \<and> end_dt sp < u \<longrightarrow> parse_article r h sp = (sp, [])"
    by (auto simp add: parse_article_cases classify_def)
  have d: "it \<in> set (feed (crawl_run evs (init_crawl sp))) \<longrightarrow>
        (\<exists>t. date it = isoformat t \<and> start_dt sp \<le> t \<and> t \<le> end_dt sp)"
    using crawl_run_feed_dates [of "init_crawl sp" evs] by (simp add: init_crawl_def)
  show ?thesis using a b c d by blast
qed

theorem emitted_date_in_closed_window_witness:
  "make_item (example_response (Some ''2024-06-01T09:30:00+08:00'') None) 63852831000000000
     \<in> set (snd (parse_article (example_response (Some ''2024-06-01T09:30:00+08:00'') None)
          None example_spider))
   \<and> (\<exists>t. resolve_pub_dt (example_response (Some ''2024-06-01T09:30:00+08:00'') None) None = Some t
          \<and> date (make_item (example_response (Some ''2024-06-01T09:30:00+08:00'') None)
                63852831000000000) = isoformat t
          \<and> start_dt example_spider \<le> t \<and> t \<le> end_dt example_spider)
   \<and> resolve_pub_dt (example_response (Some ''2024-06-01T10:00:00+08:00'') None) None
       = Some (end_dt example_spider)
   \<and> start_dt example_spider \<le> end_dt example_spider
   \<and> snd (parse_article (example_response (Some ''2024-06-01T10:00:00+08:00'') None) None
          example_spider)
       = [make_item (example_response (Some ''2024-06-01T10:00:00+08:00'') None)
            (end_dt example_spider)]
   \<and> resolve_pub_dt (example_response (Some ''2024-06-01T10:05:00+08:00'') None) None
       = Some 63852833100000000
   \<and> end_dt example_spider < 63852833100000000
   \<and> parse_article (example_response (Some ''2024-06-01T10:05:00+08:00'') None) None example_spider
       = (example_spider, [])
   \<and> make_item (example_response (Some ''2024-06-01T09:30:00+08:00'') None) 63852831000000000
       \<in> set (feed (crawl_run
            [Listing_anchor (example_anchor ''a'' (Some ''2024-06-01T09:30:00+08:00'')),
             Article_arrives 0 (example_response (Some ''2024-06-01T09:30:00+08:00'') None)]
            (init_crawl example_spider)))
   \<and> (\<exists>t. date (make_item (example_response (Some ''2024-06-01T09:30:00+08:00'') None)
                63852831000000000) = isoformat t
          \<and> start_dt example_spider \<le> t \<and> t \<le> end_dt example_spider)"
proof -
  let ?rin = "example_response (Some ''2024-06-01T09:30:00+08:00'') None"
  let ?rend = "example_response (Some ''2024-06-01T10:00:00+08:00'') None"
  let ?rnew = "example_response (Some ''2024-06-01T10:05:00+08:00'') None"
  let ?it = "make_item ?rin 63852831000000000"
  let ?evs = "[Listing_anchor (example_anchor ''a'' (Some ''2024-06-01T09:30:00+08:00'')),
             Article_arrives 0 ?rin]"
  note win = emitted_date_in_closed_window [of ?it ?rin None example_spider 63852833100000000 ?evs]
  note wend = emitted_date_in_closed_window [of ?it ?rend None example_spider 63852833100000000 ?evs]
  note wnew = emitted_date_in_closed_window [of ?it ?rnew None example_spider 63852833100000000 ?evs]
  have h1: "?it \<in> set (snd (parse_article ?rin None example_spider))" by code_simp
  have t1: "\<exists>t. resolve_pub_dt ?rin None = Some t \<and> date ?it = isoformat t
          \<and> start_dt example_spider \<le> t \<and> t \<le> end_dt example_spider"
    using win [THEN conjunct1, rule_format, OF h1] .
  have h2: "resolve_pub_dt ?rend None = Some (end_dt example_spider)
     \<and> start_dt example_spider \<le> end_dt example_spider" by code_simp
  have t2: "snd (parse_article ?rend None example_spider) = [make_item ?rend (end_dt example_spider)]"
    using wend [THEN conjunct2, THEN conjunct1, rule_format, OF h2] .
  have h3: "resolve_pub_dt ?rnew None = Some 63852833100000000
     \<and> end_dt example_spider < 63852833100000000" by code_simp
  have t3: "parse_article ?rnew None example_spider = (example_spider, [])"
    using wnew [THEN conjunct2, THEN conjunct2, THEN conjunct1, rule_format, OF h3] .
  have h4: "?it \<in> set (feed (crawl_run ?evs (init_crawl example_spider)))" by code_simp
  have t4: "\<exists>t. date ?it = isoformat t \<and> start_dt example_spider \<le> t \<and> t \<le> end_dt example_spider"
    using win [THEN conjunct2, THEN conjunct2, THEN conjunct2, rule_format, OF h4] .
  from h1 h2 h3 h4 t1 t2 t3 t4 show ?thesis
    by blast
qed

text \<open>
  The claim as stated fails at the end of the window: the article dated 2024-06-01T10:00
  resolves to \<open>end_dt\<close> of the window 09:00 to 10:00 and is yielded.
\<close>

theorem article_at_window_end_is_emitted:
  "resolve_pub_dt (example_response (Some ''2024-06-01T10:00:00+08:00'') None) None
     = Some (end_dt example_spider)
   \<and> map date (snd (parse_article (example_response (Some ''2024-06-01T10:00:00+08:00'') None)
        None example_spider))
     = [''2024-06-01T10:00:00+08:00'']"
  by code_simp

text \<open>
  Claim C2. An anchor whose URL is already in \<open>seen_urls\<close> is skipped. A request is yielded
  only for a URL that was not in \<open>seen_urls\<close>, and the URL is in \<open>seen_urls\<close> from then on. So
  the requests of one \<open>parse_archive\<close> have pairwise different URLs; a response yields at most
  one item; and in any run of the crawl no URL is requested twice and no two items of the
  feed have the same link.
\<close>

theorem each_url_dispatched_once:
  "(joined a |\<in>| seen_urls sp \<longrightarrow> anchor_body a sp = (sp, [], Continue))
   \<and> (q \<in> set (fst (snd (anchor_body a sp))) \<longrightarrow>
        req_url q = joined a \<and> req_url q |\<notin>| seen_urls sp
        \<and> req_url q |\<in>| seen_urls (fst (anchor_body a sp)))
   \<and> distinct (map req_url (fst (snd (parse_archive pages sp))))
   \<and> (q' \<in> set (fst (snd (parse_archive pages sp))) \<longrightarrow>
        req_url q' |\<notin>| seen_urls sp \<and> req_url q' |\<in>| seen_urls (fst (parse_archive pages sp)))
   \<and> length (snd (parse_article r h sp)) \<le> 1
   \<and> distinct (map req_url (requested (crawl_run evs (init_crawl sp))))
   \<and> distinct (map link (feed (crawl_run evs (init_crawl sp))))
   \<and> set (map link (feed (crawl_run evs (init_crawl sp))))
        \<subseteq> set (map req_url (requested (crawl_run evs (init_crawl sp))))"
proof -
  have a: "joined a |\<in>| seen_urls sp \<longrightarrow> anchor_body a sp = (sp, [], Continue)"
    by (simp add: anchor_body_seen_skip)
  have b: "q \<in> set (fst (snd (anchor_body a sp))) \<longrightarrow>
        req_url q = joined a \<and> req_url q |\<notin>| seen_urls sp
        \<and> req_url q |\<in>| seen_urls (fst (anchor_body a sp))"
  proof -
    from anchor_body_out [of a sp] show ?thesis
    proof (elim disjE conjE)
      assume "fst (snd (anchor_body a sp)) = []"
      then show ?thesis by simp
    next
      assume "joined a |\<notin>| seen_urls sp"
        and "fst (snd (anchor_body a sp)) = [\<lparr>req_url = joined a, req_hint = archive_dt_str a\<rparr>]"
        and "seen_urls (fst (anchor_body a sp)) = finsert (joined a) (seen_urls sp)"
      then show ?thesis by simp
    qed
  qed
  have ok: "dispatch_ok (seen_urls sp) (fst (snd (parse_archive pages sp)))
     (seen_urls (fst (parse_archive pages sp)))"
    unfolding parse_archive_def by (rule scroll_loop_dispatch_ok)
  have c: "distinct (map req_url (fst (snd (parse_archive pages sp))))"
    using ok by (simp add: dispatch_ok_def)
  have d: "q' \<in> set (fst (snd (parse_archive pages sp))) \<longrightarrow>
        req_url q' |\<notin>| seen_urls sp \<and> req_url q' |\<in>| seen_urls (fst (parse_archive pages sp))"
    using ok by (auto simp add: dispatch_ok_def)
  have inv: "crawl_inv (crawl_run evs (init_crawl sp))"
    using crawl_inv_init by (rule crawl_run_inv)
  have e: "distinct (map req_url (requested (crawl_run evs (init_crawl sp))))
     \<and> distinct (map link (feed (crawl_run evs (init_crawl sp))))
     \<and> set (map link (feed (crawl_run evs (init_crawl sp))))
        \<subseteq> set (map req_url (requested (crawl_run evs (init_crawl sp))))"
    using inv unfolding crawl_inv_def urls_inv_def by simp
  have f: "length (snd (parse_article r h sp)) \<le> 1"
    by (rule parse_article_at_most_one)
  from a b c d e f show ?thesis
    by (intro conjI) (erule conjunct1 conjunct2 | assumption | (drule conjunct2, erule conjunct1 conjunct2))+
qed

theorem each_url_dispatched_once_witness:
  "joined (example_anchor ''a'' None) |\<in>| seen_urls stopped_spider
   \<and> anchor_body (example_anchor ''a'' None) stopped_spider = (stopped_spider, [], Continue)
   \<and> \<lparr>req_url = ''https://tw.news.yahoo.com/b.html'', req_hint = None\<rparr>
       \<in> set (fst (snd (anchor_body (example_anchor ''b'' None) stopped_spider)))
   \<and> ''https://tw.news.yahoo.com/b.html'' |\<notin>| seen_urls stopped_spider
   \<and> ''https://tw.news.yahoo.com/b.html''
       |\<in>| seen_urls (fst (anchor_body (example_anchor ''b'' None) stopped_spider))
   \<and> \<lparr>req_url = ''https://tw.news.yahoo.com/b.html'', req_hint = None\<rparr>
       \<in> set (fst (snd (parse_archive
            [[example_anchor ''b'' None, example_anchor ''b'' None]] warm_spider)))
   \<and> ''https://tw.news.yahoo.com/b.html'' |\<notin>| seen_urls warm_spider
   \<and> ''https://tw.news.yahoo.com/b.html''
       |\<in>| seen_urls (fst (parse_archive
            [[example_anchor ''b'' None, example_anchor ''b'' None]] warm_spider))"
proof -
  let ?a = "example_anchor ''a'' None" and ?b = "example_anchor ''b'' None"
  let ?q = "\<lparr>req_url = ''https://tw.news.yahoo.com/b.html'', req_hint = None\<rparr>"
  let ?pages = "[[?b, ?b]]"
  note skip = each_url_dispatched_once [of ?a stopped_spider ?q ?pages ?q
      "example_response None None" None "[]"]
  note disp = each_url_dispatched_once [of ?b stopped_spider ?q ?pages ?q
      "example_response None None" None "[]"]
  note arch = each_url_dispatched_once [of ?b warm_spider ?q ?pages ?q
      "example_response None None" None "[]"]
  have h1: "joined ?a |\<in>| seen_urls stopped_spider" by code_simp
  have t1: "anchor_body ?a stopped_spider = (stopped_spider, [], Continue)"
    using skip [THEN conjunct1, rule_format, OF h1] .
  have h2: "?q \<in> set (fst (snd (anchor_body ?b stopped_spider)))" by code_simp
  have t2: "req_url ?q = joined ?b \<and> req_url ?q |\<notin>| seen_urls stopped_spider
     \<and> req_url ?q |\<in>| seen_urls (fst (anchor_body ?b stopped_spider))"
    using disp [THEN conjunct2, THEN conjunct1, rule_format, OF h2] .
  have h3: "?q \<in> set (fst (snd (parse_archive ?pages warm_spider)))" by code_simp
  have t3: "req_url ?q |\<notin>| seen_urls warm_spider
     \<and> req_url ?q |\<in>| seen_urls (fst (parse_archive ?pages warm_spider))"
    using arch [THEN conjunct2, THEN conjunct2, THEN conjunct2, THEN conjunct1, rule_format, OF h3] .
  have t2': "''https://tw.news.yahoo.com/b.html'' |\<notin>| seen_urls stopped_spider
     \<and> ''https://tw.news.yahoo.com/b.html''
         |\<in>| seen_urls (fst (anchor_body ?b stopped_spider))"
    using t2 [THEN conjunct2] by (simp only: request.simps simp_thms)
  have t3': "''https://tw.news.yahoo.com/b.html'' |\<notin>| seen_urls warm_spider
     \<and> ''https://tw.news.yahoo.com/b.html''
         |\<in>| seen_urls (fst (parse_archive ?pages warm_spider))"
    using t3 by (simp only: request.simps simp_thms)
  from h1 t1 h2 t2' h3 t3' show ?thesis by blast
qed

text \<open>
  Claim C9. With \<open>max_urls = 5\<close> and \<open>seen_urls\<close> empty, a rendering with 8 qualifying
  candidates (pairwise different URLs) makes \<open>parse_archive\<close> yield requests for exactly the
  first 5, in order; \<open>seen_urls\<close> then holds exactly those 5 URLs and none of the remaining
  3; and the loop ends after this first round with "hit max_urls", whatever renderings
  would follow.
\<close>

theorem max_urls_five_of_eight:
  "max_urls sp = Some 5 \<and> seen_urls sp = {||} \<and> \<not> stop_requested sp \<and> \<not> max_scroll_hit sp 0
   \<and> length as = 8 \<and> distinct (map joined as) \<and> (\<forall>a \<in> set as. qualifies sp a)
   \<longrightarrow> map req_url (fst (snd (parse_archive (as # later) sp))) = map joined (take 5 as)
      \<and> length (fst (snd (parse_archive (as # later) sp))) = 5
      \<and> fset (seen_urls (fst (parse_archive (as # later) sp))) = set (map joined (take 5 as))
      \<and> fcard (seen_urls (fst (parse_archive (as # later) sp))) = 5
      \<and> (\<forall>a \<in> set (drop 5 as). joined a |\<notin>| seen_urls (fst (parse_archive (as # later) sp)))
      \<and> snd (snd (parse_archive (as # later) sp)) = (Hit_max_urls, 1)"
proof (intro impI, elim conjE)
  assume m: "max_urls sp = Some 5" and e: "seen_urls sp = {||}"
    and go: "\<not> stop_requested sp" "\<not> max_scroll_hit sp 0"
    and len: "length as = 8" and d: "distinct (map joined as)"
    and q: "\<forall>a \<in> set as. qualifies sp a"
  have fr: "\<forall>a \<in> set as. joined a |\<notin>| seen_urls sp" using e by simp
  have lt: "int (fcard (seen_urls sp)) < 5" using e by (simp add: fcard_fempty)
  have enough: "5 \<le> int (fcard (seen_urls sp)) + int (length as)" using e len by (simp add: fcard_fempty)
  have k: "nat (5 - int (fcard (seen_urls sp))) = 5" using e by (simp add: fcard_fempty)
  from parse_archive_max_urls [OF q d fr m lt enough go, of later]
  have o: "map req_url (fst (snd (parse_archive (as # later) sp))) = map joined (take 5 as)"
    and s: "fset (seen_urls (fst (parse_archive (as # later) sp))) = set (map joined (take 5 as))"
    and c: "int (fcard (seen_urls (fst (parse_archive (as # later) sp)))) = 5"
    and r: "snd (snd (parse_archive (as # later) sp)) = (Hit_max_urls, 1)"
    unfolding k using e by simp_all
  have l: "length (fst (snd (parse_archive (as # later) sp))) = 5"
  proof -
    have "length (map req_url (fst (snd (parse_archive (as # later) sp)))) = length (take 5 as)"
      using o by simp
    then show ?thesis using len by simp
  qed
  have dd: "distinct (map joined (take 5 as) @ map joined (drop 5 as))"
    using d by (simp add: map_append [symmetric])
  have rest: "\<forall>a \<in> set (drop 5 as). joined a |\<notin>| seen_urls (fst (parse_archive (as # later) sp))"
  proof
    fix a assume "a \<in> set (drop 5 as)"
    then have "joined a \<in> set (map joined (drop 5 as))" by simp
    then have "joined a \<notin> set (map joined (take 5 as))" using dd by auto
    then show "joined a |\<notin>| seen_urls (fst (parse_archive (as # later) sp))"
      using s by simp
  qed
  show "map req_url (fst (snd (parse_archive (as # later) sp))) = map joined (take 5 as)
      \<and> length (fst (snd (parse_archive (as # later) sp))) = 5
      \<and> fset (seen_urls (fst (parse_archive (as # later) sp))) = set (map joined (take 5 as))
      \<and> fcard (seen_urls (fst (parse_archive (as # later) sp))) = 5
      \<and> (\<forall>a \<in> set (drop 5 as). joined a |\<notin>| seen_urls (fst (parse_archive (as # later) sp)))
      \<and> snd (snd (parse_archive (as # later) sp)) = (Hit_max_urls, 1)"
    using o l s c rest r by simp
qed

theorem max_urls_five_of_eight_witness:
  "max_urls example_spider = Some 5 \<and> seen_urls example_spider = {||}
   \<and> \<not> stop_requested example_spider \<and> \<not> max_scroll_hit example_spider 0
   \<and> length eight_anchors = 8 \<and> distinct (map joined eight_anchors)
   \<and> list_all (qualifies example_spider) eight_anchors
   \<and> map req_url (fst (snd (parse_archive [eight_anchors, eight_anchors] example_spider)))
       = [''https://tw.news.yahoo.com/n1.html'', ''https://tw.news.yahoo.com/n2.html'',
          ''https://tw.news.yahoo.com/n3.html'', ''https://tw.news.yahoo.com/n4.html'',
          ''https://tw.news.yahoo.com/n5.html'']
   \<and> fcard (seen_urls (fst (parse_archive [eight_anchors, eight_anchors] example_spider))) = 5
   \<and> snd (snd (parse_archive [eight_anchors, eight_anchors] example_spider)) = (Hit_max_urls, 1)"
proof -
  have h: "max_urls example_spider = Some 5 \<and> seen_urls example_spider = {||}
     \<and> \<not> stop_requested example_spider \<and> \<not> max_scroll_hit example_spider 0
     \<and> length eight_anchors = 8 \<and> distinct (map joined eight_anchors)
     \<and> (\<forall>a \<in> set eight_anchors. qualifies example_spider a)"
    by code_simp
  have q: "list_all (qualifies example_spider) eight_anchors"
    using h by (simp add: list_all_iff)
  have u: "map joined (take 5 eight_anchors)
       = [''https://tw.news.yahoo.com/n1.html'', ''https://tw.news.yahoo.com/n2.html'',
          ''https://tw.news.yahoo.com/n3.html'', ''https://tw.news.yahoo.com/n4.html'',
          ''https://tw.news.yahoo.com/n5.html'']"
    by code_simp
  note t = max_urls_five_of_eight [of example_spider eight_anchors "[eight_anchors]",
      rule_format, OF h]
  have t1: "map req_url (fst (snd (parse_archive [eight_anchors, eight_anchors] example_spider)))
       = [''https://tw.news.yahoo.com/n1.html'', ''https://tw.news.yahoo.com/n2.html'',
          ''https://tw.news.yahoo.com/n3.html'', ''https://tw.news.yahoo.com/n4.html'',
          ''https://tw.news.yahoo.com/n5.html'']"
    using t [THEN conjunct1] u by (rule trans)
  have t2: "fcard (seen_urls (fst (parse_archive [eight_anchors, eight_anchors] example_spider))) = 5"
    using t [THEN conjunct2, THEN conjunct2, THEN conjunct2, THEN conjunct1] .
  have t3: "snd (snd (parse_archive [eight_anchors, eight_anchors] example_spider)) = (Hit_max_urls, 1)"
    using t [THEN conjunct2, THEN conjunct2, THEN conjunct2, THEN conjunct2, THEN conjunct2] .
  from h q t1 t2 t3 show ?thesis by blast
qed

text \<open>
  Claim C6, as the code has it. A string is used with its leading and trailing white space
  removed, and yields nothing when nothing is left; it is used as it is when it has none. A
  mapping yields its \<open>name\<close> field, stripped, only when that field is a string that is not
  empty after stripping. A sequence yields, for the author, the resolved names of its members
  joined by a comma and a space and, for the provider, the first resolved name; nothing when
  no member resolves. Any other value yields nothing.
\<close>

theorem name_resolution_rule:
  "extract_person_name (JStr v) = (if strip v = [] then None else Some (strip v))
   \<and> extract_org_name (JStr v) = (if strip v = [] then None else Some (strip v))
   \<and> (v \<noteq> [] \<and> \<not> py_isspace (hd v) \<and> \<not> py_isspace (last v) \<longrightarrow>
        extract_person_name (JStr v) = Some v \<and> extract_org_name (JStr v) = Some v)
   \<and> extract_person_name (JDict kvs)
       = (case map_of kvs ''name'' of
            Some (JStr s) \<Rightarrow> if strip s = [] then None else Some (strip s)
          | _ \<Rightarrow> None)
   \<and> extract_org_name (JDict kvs) = extract_person_name (JDict kvs)
   \<and> (extract_person_name (JDict kvs) = Some n \<longrightarrow>
        (\<exists>s. map_of kvs ''name'' = Some (JStr s) \<and> s \<noteq> [] \<and> n = strip s \<and> n \<noteq> []))
   \<and> extract_person_name (JList xs)
       = (case List.map_filter extract_person_name xs of
            [] \<Rightarrow> None
          | m # ms \<Rightarrow> Some (join_comma (m # ms)))
   \<and> extract_org_name (JList xs)
       = (case List.map_filter extract_org_name xs of [] \<Rightarrow> None | m # ms \<Rightarrow> Some m)
   \<and> extract_person_name JNull = None \<and> extract_org_name JNull = None
   \<and> extract_person_name (JBool b) = None \<and> extract_org_name (JBool b) = None
   \<and> extract_person_name (JNum i) = None \<and> extract_org_name (JNum i) = None"
proof -
  have s: "extract_person_name (JStr v) = (if strip v = [] then None else Some (strip v))
     \<and> extract_org_name (JStr v) = (if strip v = [] then None else Some (strip v))"
    by (simp add: strip_or_none_def)
  have asis: "v \<noteq> [] \<and> \<not> py_isspace (hd v) \<and> \<not> py_isspace (last v) \<longrightarrow>
        extract_person_name (JStr v) = Some v \<and> extract_org_name (JStr v) = Some v"
    by (auto simp add: strip_or_none_def strip_id)
  have d: "extract_person_name (JDict kvs)
       = (case map_of kvs ''name'' of
            Some (JStr s) \<Rightarrow> if strip s = [] then None else Some (strip s)
          | _ \<Rightarrow> None)"
    by (auto simp add: name_of_dict_def split: option.splits json.splits)
  have d2: "extract_org_name (JDict kvs) = extract_person_name (JDict kvs)" by simp
  have d3: "extract_person_name (JDict kvs) = Some n \<longrightarrow>
        (\<exists>s. map_of kvs ''name'' = Some (JStr s) \<and> s \<noteq> [] \<and> n = strip s \<and> n \<noteq> [])"
    by (auto simp add: name_of_dict_def strip_def split: option.splits json.splits if_splits)
  have l: "extract_person_name (JList xs)
       = (case List.map_filter extract_person_name xs of
            [] \<Rightarrow> None
          | m # ms \<Rightarrow> Some (join_comma (m # ms)))"
    by (simp add: person_names_map_filter Let_def split: list.splits)
  have l2: "extract_org_name (JList xs)
       = (case List.map_filter extract_org_name xs of [] \<Rightarrow> None | m # ms \<Rightarrow> Some m)"
    by (simp add: first_org_name_map_filter)
  show ?thesis using s asis d d2 d3 l l2 by simp
qed

theorem name_resolution_rule_witness:
  "''Bob'' \<noteq> [] \<and> \<not> py_isspace (hd ''Bob'') \<and> \<not> py_isspace (last ''Bob'')
   \<and> extract_person_name (JStr ''Bob'') = Some ''Bob''
   \<and> extract_org_name (JStr ''Bob'') = Some ''Bob''
   \<and> extract_person_name (JDict [(''@type'', JStr ''Person''), (''name'', JStr '' Ann '')])
       = Some ''Ann''
   \<and> (\<exists>s. map_of [(''@type'', JStr ''Person''), (''name'', JStr '' Ann '')] ''name'' = Some (JStr s)
          \<and> s \<noteq> [] \<and> ''Ann'' = strip s \<and> ''Ann'' \<noteq> [])"
proof -
  let ?kvs = "[(''@type'', JStr ''Person''), (''name'', JStr '' Ann '')]"
  note t = name_resolution_rule [of "''Bob''" ?kvs "''Ann''" "[]" True 0]
  have h1: "''Bob'' \<noteq> [] \<and> \<not> py_isspace (hd ''Bob'') \<and> \<not> py_isspace (last ''Bob'')"
    by code_simp
  have t1: "extract_person_name (JStr ''Bob'') = Some ''Bob''
     \<and> extract_org_name (JStr ''Bob'') = Some ''Bob''"
    using t [THEN conjunct2, THEN conjunct2, THEN conjunct1, rule_format, OF h1] .
  have h2: "extract_person_name (JDict ?kvs) = Some ''Ann''" by code_simp
  have t2: "\<exists>s. map_of ?kvs ''name'' = Some (JStr s) \<and> s \<noteq> [] \<and> ''Ann'' = strip s \<and> ''Ann'' \<noteq> []"
    using t [THEN conjunct2, THEN conjunct2, THEN conjunct2, THEN conjunct2, THEN conjunct2,
        THEN conjunct1, rule_format, OF h2] .
  from h1 t1 h2 t2 show ?thesis by blast
qed

text \<open>
  The claim as stated fails for a string with surrounding white space: it is not used as
  it is, and a string of white space yields nothing.
\<close>

theorem name_string_is_stripped:
  "extract_person_name (JStr '' Bob '') = Some ''Bob''
   \<and> extract_person_name (JStr '' Bob '') \<noteq> Some '' Bob ''
   \<and> extract_org_name (JStr '' Bob '') = Some ''Bob''
   \<and> extract_person_name (JStr '' '') = None"
  by code_simp

text \<open>
  Claim C8. Sorting the rows twice is sorting them once, and rows already in ascending
  order of their date keys come back unchanged; the same holds of the whole output file.
  The sort is the stable sort by date key: rows with equal keys keep their order.
\<close>

theorem output_sort_idempotent:
  "sort_rows (sort_rows rows) = sort_rows rows
   \<and> (sorted (map date_key rows) \<longrightarrow> sort_rows rows = rows)
   \<and> sort_rows rows = sort_key date_key rows
   \<and> sorted (map date_key (sort_rows rows))
   \<and> sort_output_csv_by_date (sort_output_csv_by_date csv) = sort_output_csv_by_date csv
   \<and> (csv = Some (fieldnames, rows) \<and> sorted (map date_key rows) \<longrightarrow>
        sort_output_csv_by_date csv = csv)"
proof -
  have "csv = Some (fieldnames, rows) \<and> sorted (map date_key rows) \<longrightarrow>
        sort_output_csv_by_date csv = csv"
    by (auto simp add: sort_output_csv_by_date_def sort_rows_id)
  then show ?thesis
    using sort_rows_idem [of rows] sort_rows_id [of rows] sort_rows_stable [of rows]
      sort_rows_sorted [of rows] sort_output_idem [of csv]
    by blast
qed

theorem output_sort_idempotent_witness:
  "sorted (map date_key example_rows)
   \<and> sort_rows example_rows = example_rows
   \<and> sort_output_csv_by_date (Some ([''link'', ''date''], example_rows))
       = Some ([''link'', ''date''], example_rows)"
proof -
  let ?f = "Some ([''link'', ''date''], example_rows)"
  note t = output_sort_idempotent [of example_rows ?f "[''link'', ''date'']"]
  have h: "sorted (map date_key example_rows)" by code_simp
  have t1: "sort_rows example_rows = example_rows"
    using t [THEN conjunct2, THEN conjunct1, rule_format, OF h] .
  have h2: "?f = Some ([''link'', ''date''], example_rows) \<and> sorted (map date_key example_rows)"
    using h by simp
  have t2: "sort_output_csv_by_date ?f = ?f"
    using t [THEN conjunct2, THEN conjunct2, THEN conjunct2, THEN conjunct2, THEN conjunct2,
        rule_format, OF h2] .
  from h t1 t2 show ?thesis by blast
qed

text \<open>
  Claim C5, as the code has it. The date string of the page is the first of the time
  attribute, the \<open>article:published_time\<close> meta tag and the \<open>pubdate\<close> meta tag that is
  present; the resolved date is its parse when it parses, and the parse of the inline hint
  otherwise. Nothing is yielded when neither parses, in particular when none of the four
  sources parses. When the first present page source parses, or no page source is present,
  the resolved date is that of the first of the four sources that parses. The date of a
  yielded item is the serialised resolved date.
\<close>

theorem date_source_precedence:
  "resolve_pub_dt r h = first_parsing [first_present (page_sources r), h]
   \<and> (resolve_pub_dt r h = None \<longrightarrow> parse_article r h sp = (sp, []))
   \<and> (first_parsing (page_sources r @ [h]) = None \<longrightarrow> resolve_pub_dt r h = None)
   \<and> (parse_datetime (first_present (page_sources r)) \<noteq> None
        \<or> filter truthy (page_sources r) = []
      \<longrightarrow> resolve_pub_dt r h = first_parsing (page_sources r @ [h]))
   \<and> (it \<in> set (snd (parse_article r h sp)) \<longrightarrow>
        (\<exists>t. resolve_pub_dt r h = Some t \<and> date it = isoformat t))"
proof -
  have a: "resolve_pub_dt r h = first_parsing [first_present (page_sources r), h]"
    by (rule resolve_pub_dt_first_present)
  have b: "resolve_pub_dt r h = None \<longrightarrow> parse_article r h sp = (sp, [])"
    by (simp add: parse_article_cases)
  have c: "first_parsing (page_sources r @ [h]) = None \<longrightarrow> resolve_pub_dt r h = None"
    using resolve_None_if_all_fail [of r h] by blast
  have d: "parse_datetime (first_present (page_sources r)) \<noteq> None
        \<or> filter truthy (page_sources r) = []
      \<longrightarrow> resolve_pub_dt r h = first_parsing (page_sources r @ [h])"
    using first_parsing_page_sources [of r h] a by simp
  have e: "it \<in> set (snd (parse_article r h sp)) \<longrightarrow>
        (\<exists>t. resolve_pub_dt r h = Some t \<and> date it = isoformat t)"
    using parse_article_items [of it r h sp] by (auto simp add: make_item_def)
  from a b c d e show ?thesis by blast
qed

theorem date_source_precedence_witness:
  "resolve_pub_dt (example_response (Some ''yesterday'') None) None = None
   \<and> parse_article (example_response (Some ''yesterday'') None) None example_spider
       = (example_spider, [])
   \<and> first_parsing (page_sources (example_response (Some ''yesterday'') None) @ [None]) = None
   \<and> parse_datetime (first_present (page_sources
         (example_response (Some []) (Some ''2024-06-01T09:15:00+08:00'')))) \<noteq> None
   \<and> resolve_pub_dt (example_response (Some []) (Some ''2024-06-01T09:15:00+08:00''))
         (Some ''2024-06-01T09:45:00+08:00'')
       = first_parsing (page_sources (example_response (Some []) (Some ''2024-06-01T09:15:00+08:00''))
           @ [Some ''2024-06-01T09:45:00+08:00''])
   \<and> make_item (example_response None None) 63852830100000000
       \<in> set (snd (parse_article (example_response None None)
            (Some ''2024-06-01T09:15:00+08:00'') example_spider))
   \<and> (\<exists>t. resolve_pub_dt (example_response None None) (Some ''2024-06-01T09:15:00+08:00'') = Some t
          \<and> date (make_item (example_response None None) 63852830100000000) = isoformat t)"
proof -
  let ?bad = "example_response (Some ''yesterday'') None"
  let ?meta = "example_response (Some []) (Some ''2024-06-01T09:15:00+08:00'')"
  let ?bare = "example_response None None"
  let ?hint = "Some ''2024-06-01T09:15:00+08:00''"
  let ?it = "make_item ?bare 63852830100000000"
  note tbad = date_source_precedence [of ?bad None example_spider ?it]
  note tmeta = date_source_precedence [of ?meta "Some ''2024-06-01T09:45:00+08:00''" example_spider ?it]
  note tbare = date_source_precedence [of ?bare ?hint example_spider ?it]
  have h1: "first_parsing (page_sources ?bad @ [None]) = None" by code_simp
  have t1: "resolve_pub_dt ?bad None = None"
    using tbad [THEN conjunct2, THEN conjunct2, THEN conjunct1, rule_format, OF h1] .
  have t2: "parse_article ?bad None example_spider = (example_spider, [])"
    using tbad [THEN conjunct2, THEN conjunct1, rule_format, OF t1] .
  have h3: "parse_datetime (first_present (page_sources ?meta)) \<noteq> None" by code_simp
  have h3': "parse_datetime (first_present (page_sources ?meta)) \<noteq> None
     \<or> filter truthy (page_sources ?meta) = []"
    using h3 by (rule disjI1)
  have t3: "resolve_pub_dt ?meta (Some ''2024-06-01T09:45:00+08:00'')
       = first_parsing (page_sources ?meta @ [Some ''2024-06-01T09:45:00+08:00''])"
    using tmeta [THEN conjunct2, THEN conjunct2, THEN conjunct2, THEN conjunct1, rule_format, OF h3'] .
  have h4: "?it \<in> set (snd (parse_article ?bare ?hint example_spider))" by code_simp
  have t4: "\<exists>t. resolve_pub_dt ?bare ?hint = Some t \<and> date ?it = isoformat t"
    using tbare [THEN conjunct2, THEN conjunct2, THEN conjunct2, THEN conjunct2, rule_format, OF h4] .
  from h1 t1 t2 h3 t3 h4 t4 show ?thesis by blast
qed

text \<open>
  The claim as stated fails when a present page source does not parse: the time attribute
  \<open>yesterday\<close> hides the parseable, in-window \<open>article:published_time\<close>, so that the article is
  dropped without a hint, and dated by the hint when there is one.
\<close>

theorem unparseable_time_hides_meta_date:
  "parse_datetime (time_datetime
       (example_response (Some ''yesterday'') (Some ''2024-06-01T09:15:00+08:00''))) = None
   \<and> parse_datetime (meta_published_time
       (example_response (Some ''yesterday'') (Some ''2024-06-01T09:15:00+08:00'')))
       = Some 63852830100000000
   \<and> classify example_spider 63852830100000000 = IN_WINDOW
   \<and> resolve_pub_dt (example_response (Some ''yesterday'') (Some ''2024-06-01T09:15:00+08:00''))
       None = None
   \<and> parse_article (example_response (Some ''yesterday'') (Some ''2024-06-01T09:15:00+08:00''))
       None example_spider = (example_spider, [])
   \<and> resolve_pub_dt (example_response (Some ''yesterday'') (Some ''2024-06-01T09:15:00+08:00''))
       (Some ''2024-06-01T09:45:00+08:00'') = Some 63852831900000000"
  by code_simp

text \<open>
  Claim C7, as the code has it. For every string in the serialiser's own form
  \<open>YYYY-MM-DDTHH:MM:SS[.ffffff]+08:00\<close> (valid fields, from 1980 on, where the reference
  timezone has its fixed offset), parsing gives the instant of these fields and serialising
  it gives the identical string. For every string without the letter \<open>Z\<close>, appending \<open>Z\<close> and
  appending \<open>+00:00\<close> parse to the same result; for the UTC fields of an instant that result
  is the instant, eight hours later on the reference clock.
\<close>

theorem datetime_round_trip:
  "(valid_fields y m d hh mm ss us \<and> 1980 \<le> y \<longrightarrow>
      parse_datetime (Some (format_fields y m d hh mm ss us))
        = Some (wall_of_fields y m d hh mm ss us)
      \<and> isoformat (wall_of_fields y m d hh mm ss us) = format_fields y m d hh mm ss us
      \<and> map_option isoformat (parse_datetime (Some (format_fields y m d hh mm ss us)))
        = Some (format_fields y m d hh mm ss us))
   \<and> (CHR ''Z'' \<notin> set body \<longrightarrow>
        parse_datetime (Some (body @ ''Z'')) = parse_datetime (Some (body @ ''+00:00'')))
   \<and> (valid_fields y m d hh mm ss us \<and> 1980 \<le> y
        \<and> in_range (wall_of_fields y m d hh mm ss us + tz_offset) \<longrightarrow>
        parse_datetime (Some (utc_body y m d hh mm ss us @ ''Z''))
          = Some (wall_of_fields y m d hh mm ss us + tz_offset)
        \<and> parse_datetime (Some (utc_body y m d hh mm ss us @ ''+00:00''))
          = Some (wall_of_fields y m d hh mm ss us + tz_offset))"
proof -
  have a: "valid_fields y m d hh mm ss us \<and> 1980 \<le> y \<longrightarrow>
      parse_datetime (Some (format_fields y m d hh mm ss us))
        = Some (wall_of_fields y m d hh mm ss us)
      \<and> isoformat (wall_of_fields y m d hh mm ss us) = format_fields y m d hh mm ss us
      \<and> map_option isoformat (parse_datetime (Some (format_fields y m d hh mm ss us)))
        = Some (format_fields y m d hh mm ss us)"
    using parse_datetime_canonical [of y m d hh mm ss us]
      isoformat_wall_of_fields [of y m d hh mm ss us]
    by simp
  have b: "CHR ''Z'' \<notin> set body \<longrightarrow>
        parse_datetime (Some (body @ ''Z'')) = parse_datetime (Some (body @ ''+00:00''))"
    using parse_datetime_Z [of body] by blast
  have c: "valid_fields y m d hh mm ss us \<and> 1980 \<le> y
        \<and> in_range (wall_of_fields y m d hh mm ss us + tz_offset) \<longrightarrow>
        parse_datetime (Some (utc_body y m d hh mm ss us @ ''Z''))
          = Some (wall_of_fields y m d hh mm ss us + tz_offset)
        \<and> parse_datetime (Some (utc_body y m d hh mm ss us @ ''+00:00''))
          = Some (wall_of_fields y m d hh mm ss us + tz_offset)"
    using parse_datetime_utc [of y m d hh mm ss us]
      parse_datetime_Z [OF utc_body_no_Z, of y m d hh mm ss us]
    by simp
  from a b c show ?thesis by (intro conjI)
qed

theorem datetime_round_trip_witness:
  "valid_fields 2024 6 1 9 15 0 0 \<and> (1980::int) \<le> 2024
   \<and> parse_datetime (Some ''2024-06-01T09:15:00+08:00'') = Some 63852830100000000
   \<and> map_option isoformat (parse_datetime (Some ''2024-06-01T09:15:00+08:00''))
       = Some ''2024-06-01T09:15:00+08:00''
   \<and> CHR ''Z'' \<notin> set ''2024-06-01T01:15:00''
   \<and> parse_datetime (Some ''2024-06-01T01:15:00Z'')
       = parse_datetime (Some ''2024-06-01T01:15:00+00:00'')
   \<and> valid_fields 2024 6 1 1 15 0 0
   \<and> in_range (wall_of_fields 2024 6 1 1 15 0 0 + tz_offset)
   \<and> parse_datetime (Some ''2024-06-01T01:15:00Z'') = Some 63852830100000000"
proof -
  note t = datetime_round_trip [of 2024 6 1 9 15 0 0 "''2024-06-01T01:15:00''"]
  note u = datetime_round_trip [of 2024 6 1 1 15 0 0 "''2024-06-01T01:15:00''"]
  have h1: "valid_fields 2024 6 1 9 15 0 0 \<and> (1980::int) \<le> 2024" by code_simp
  have f1: "format_fields 2024 6 1 9 15 0 0 = ''2024-06-01T09:15:00+08:00''" by code_simp
  have w1: "wall_of_fields 2024 6 1 9 15 0 0 = 63852830100000000" by code_simp
  have t1: "parse_datetime (Some ''2024-06-01T09:15:00+08:00'') = Some 63852830100000000
     \<and> map_option isoformat (parse_datetime (Some ''2024-06-01T09:15:00+08:00''))
       = Some ''2024-06-01T09:15:00+08:00''"
    using t [THEN conjunct1, rule_format, OF h1] unfolding f1 w1 by blast
  have h2: "CHR ''Z'' \<notin> set ''2024-06-01T01:15:00''" by code_simp
  have t2: "parse_datetime (Some (''2024-06-01T01:15:00'' @ ''Z''))
       = parse_datetime (Some (''2024-06-01T01:15:00'' @ ''+00:00''))"
    using t [THEN conjunct2, THEN conjunct1, rule_format, OF h2] .
  have t2': "parse_datetime (Some ''2024-06-01T01:15:00Z'')
       = parse_datetime (Some ''2024-06-01T01:15:00+00:00'')"
    using t2 by simp
  have h3: "valid_fields 2024 6 1 1 15 0 0 \<and> (1980::int) \<le> 2024
     \<and> in_range (wall_of_fields 2024 6 1 1 15 0 0 + tz_offset)" by code_simp
  have f3: "utc_body 2024 6 1 1 15 0 0 @ ''Z'' = ''2024-06-01T01:15:00Z''" by code_simp
  have w3: "wall_of_fields 2024 6 1 1 15 0 0 + tz_offset = 63852830100000000" by code_simp
  have t3: "parse_datetime (Some ''2024-06-01T01:15:00Z'') = Some 63852830100000000"
    using u [THEN conjunct2, THEN conjunct2, rule_format, OF h3, THEN conjunct1]
    unfolding f3 w3 .
  from h1 t1 h2 t2' h3 t3 show ?thesis by blast
qed

text \<open>
  The claim as stated fails for ISO strings of the reference timezone that are not in the
  serialiser's form: a string without offset is read as reference-timezone time and comes
  back with \<open>+08:00\<close> appended, and a time without seconds comes back with them.
\<close>

theorem string_without_offset_gains_offset:
  "map_option isoformat (parse_datetime (Some ''2024-06-01T09:15:00''))
     = Some ''2024-06-01T09:15:00+08:00''
   \<and> map_option isoformat (parse_datetime (Some ''2024-06-01T09:15+08:00''))
     = Some ''2024-06-01T09:15:00+08:00''"
  by code_simp

end
